theory Spec2Isabelle
  imports Main
begin

section \<open>Per-page asset state\<close>

text \<open>
  The story viewer component (\<^verbatim>\<open>StoryViewer\<close>) keeps one record per story page.
  \<^verbatim>\<open>StoryPage\<close> is the immutable input (\<^verbatim>\<open>types.ts\<close>), \<^verbatim>\<open>StoryPageState\<close>
  extends it with the fetched assets and the loading and error flags. An optional
  property (\<^verbatim>\<open>imageUrl?\<close>) is an \<open>option\<close>: \<open>None\<close> is \<^verbatim>\<open>undefined\<close>.
  The field \<^verbatim>\<open>text\<close> is written \<open>text'\<close>, since \<^verbatim>\<open>text\<close> is a command of Isabelle.
  A decoded \<^verbatim>\<open>AudioBuffer\<close> is an object of the browser; only its identity matters here.
\<close>

datatype AudioBuffer = AudioBuffer nat

record StoryPage =
  text' :: string
  imagePrompt :: string
  imageUrl :: "string option"

record StoryPageState = StoryPage +
  audioData :: "string option"
  audioBuffer :: "AudioBuffer option"
  isImageLoading :: bool
  isAudioLoading :: bool
  imageError :: bool
  audioError :: bool

text \<open>
  \<^verbatim>\<open>Partial<StoryPageState>\<close>: an object that holds any subset of the keys. A key that is
  absent is \<open>None\<close>; a key that is present carries its value (for an optional property
  the value may itself be \<^verbatim>\<open>undefined\<close>, hence \<open>Some None\<close>). A required property
  given as \<^verbatim>\<open>undefined\<close> would make the merged object no \<^verbatim>\<open>StoryPageState\<close>; no call of the
  component passes one, and the record has no value for it.
\<close>

record PartialStoryPageState =
  p_text :: "string option"
  p_imagePrompt :: "string option"
  p_imageUrl :: "string option option"
  p_audioData :: "string option option"
  p_audioBuffer :: "AudioBuffer option option"
  p_isImageLoading :: "bool option"
  p_isAudioLoading :: "bool option"
  p_imageError :: "bool option"
  p_audioError :: "bool option"

definition no_updates :: PartialStoryPageState where
  "no_updates = \<lparr> p_text = None, p_imagePrompt = None, p_imageUrl = None,
     p_audioData = None, p_audioBuffer = None, p_isImageLoading = None,
     p_isAudioLoading = None, p_imageError = None, p_audioError = None \<rparr>"

text \<open>One key of the object spread \<^verbatim>\<open>{ ...page, ...updates }\<close>: the later object wins
  where it has the key.\<close>

definition spread_key :: "'a \<Rightarrow> 'a option \<Rightarrow> 'a" where
  "spread_key old upd = (case upd of None \<Rightarrow> old | Some v \<Rightarrow> v)"

definition spread :: "StoryPageState \<Rightarrow> PartialStoryPageState \<Rightarrow> StoryPageState" where
  "spread page updates =
     \<lparr> text' = spread_key (text' page) (p_text updates),
       imagePrompt = spread_key (imagePrompt page) (p_imagePrompt updates),
       imageUrl = spread_key (imageUrl page) (p_imageUrl updates),
       audioData = spread_key (audioData page) (p_audioData updates),
       audioBuffer = spread_key (audioBuffer page) (p_audioBuffer updates),
       isImageLoading = spread_key (isImageLoading page) (p_isImageLoading updates),
       isAudioLoading = spread_key (isAudioLoading page) (p_isAudioLoading updates),
       imageError = spread_key (imageError page) (p_imageError updates),
       audioError = spread_key (audioError page) (p_audioError updates) \<rparr>"

text \<open>
  \<^verbatim>\<open>updatePage(index, updates)\<close> hands React the updater
  \<^verbatim>\<open>prev => { const newPages = [...prev]; newPages[index] = { ...newPages[index], ...updates }; return newPages; }\<close>.
  \<open>updatePage index updates\<close> is that updater. For an index of the array the copy is
  updated in place. For an index past the end JavaScript does not fail: the assignment
  grows the copy to \<open>index + 1\<close> slots, the slots in between are holes and the new last
  slot holds \<^verbatim>\<open>{ ...undefined, ...updates }\<close>, an object with the keys of \<open>updates\<close> only.
  Such an array is not a \<^verbatim>\<open>StoryPageState[]\<close>; the updater's result is then \<open>Sparse\<close>, which
  records the array it was applied to, the index and the keys written.
\<close>

datatype pages_array =
  Pages "StoryPageState list"
  | Sparse "StoryPageState list" nat PartialStoryPageState

definition updatePage :: "nat \<Rightarrow> PartialStoryPageState \<Rightarrow> StoryPageState list \<Rightarrow> pages_array" where
  "updatePage index updates prev =
     (if index < length prev
      then Pages (prev[index := spread (prev ! index) updates])
      else Sparse prev index updates)"


section \<open>The browser's audio objects\<close>

text \<open>
  The playback controller drives the Web Audio interface of the browser, which is not
  part of the repository. It is modelled here as far as the component uses it: an
  \<^verbatim>\<open>AudioContext\<close> has a \<^verbatim>\<open>state\<close>; an \<^verbatim>\<open>AudioBufferSourceNode\<close> belongs to a context, has a
  buffer, an \<^verbatim>\<open>onended\<close> handler, and is started at most once. Objects live in a store and
  are known by their address (object identity), allocated in order: the counters
  \<open>n_contexts\<close> and \<open>n_sources\<close> say how many were created so far.

  Assumptions on the browser, none of them code of the repository:
  \<^item> a new context is \<open>running\<close>, and \<^verbatim>\<open>close()\<close> changes the context's state at the call;
  \<^item> \<^verbatim>\<open>suspend()\<close> and \<^verbatim>\<open>resume()\<close> return a promise that settles in a later task, so code that
    awaits it goes on only after other events may have been handled. The \<^verbatim>\<open>state\<close> the
    component reads changes at some moment from the call to the settling of the promise
    (browsers differ; the Web Audio specification changes it in the task that resolves
    the promise), and not at all when the context has been closed by then;
  \<^item> \<^verbatim>\<open>stop()\<close> raises \<^verbatim>\<open>InvalidStateError\<close> on a source that was never started; whether it
    also raises on a source that has already played to its end depends on the browser
    (\<open>stop_raises_when_ended\<close>).
  The temporary context that \<^verbatim>\<open>prefetchAssets\<close> creates to decode a narration and closes
  again never has a source; it is left out of the store.
\<close>

datatype failure =
  TypeError
  | InvalidStateError
  | NotAPageArray

datatype AudioContextState = running | suspended | closed

datatype ended_handler = StopUnlessSuspended

record AudioBufferSourceNode =
  buffer :: "AudioBuffer option"
  node_context :: nat
  connected :: bool
  onended :: "ended_handler option"
  started :: bool
  stop_called :: bool
  ended :: bool

record web_audio =
  contexts :: "nat \<Rightarrow> AudioContextState"
  n_contexts :: nat
  sources :: "nat \<Rightarrow> AudioBufferSourceNode"
  n_sources :: nat
  stop_raises_when_ended :: bool

definition no_audio :: "bool \<Rightarrow> web_audio" where
  "no_audio quirk =
     \<lparr> contexts = (\<lambda>_. closed), n_contexts = 0,
       sources = (\<lambda>_. \<lparr> buffer = None, node_context = 0, connected = False, onended = None,
                          started = False, stop_called = False, ended = False \<rparr>),
       n_sources = 0, stop_raises_when_ended = quirk \<rparr>"

text \<open>\<^verbatim>\<open>new AudioContext({ sampleRate: 24000 })\<close>: the new object's address and the store.\<close>

definition new_AudioContext :: "web_audio \<Rightarrow> nat \<times> web_audio" where
  "new_AudioContext w =
     (n_contexts w, w\<lparr> contexts := (contexts w)(n_contexts w := running),
                       n_contexts := Suc (n_contexts w) \<rparr>)"

text \<open>\<^verbatim>\<open>context.createBufferSource()\<close>.\<close>

definition createBufferSource :: "nat \<Rightarrow> web_audio \<Rightarrow> nat \<times> web_audio" where
  "createBufferSource c w =
     (n_sources w,
      w\<lparr> sources := (sources w)(n_sources w :=
            \<lparr> buffer = None, node_context = c, connected = False, onended = None,
              started = False, stop_called = False, ended = False \<rparr>),
         n_sources := Suc (n_sources w) \<rparr>)"

definition update_source :: "nat \<Rightarrow> (AudioBufferSourceNode \<Rightarrow> AudioBufferSourceNode) \<Rightarrow> web_audio \<Rightarrow> web_audio" where
  "update_source a f w = w\<lparr> sources := (sources w)(a := f (sources w a)) \<rparr>"

definition set_context_state :: "nat \<Rightarrow> AudioContextState \<Rightarrow> web_audio \<Rightarrow> web_audio" where
  "set_context_state c st w = w\<lparr> contexts := (contexts w)(c := st) \<rparr>"

text \<open>\<^verbatim>\<open>context.suspend()\<close> and \<^verbatim>\<open>context.resume()\<close>: what the browser does to the store when it
  carries out the call.\<close>

datatype context_call = Suspend | Resume

definition call_done :: "nat \<Rightarrow> context_call \<Rightarrow> web_audio \<Rightarrow> web_audio" where
  "call_done c k w =
     (if contexts w c = closed then w
      else set_context_state c (case k of Suspend \<Rightarrow> suspended | Resume \<Rightarrow> running) w)"

text \<open>\<^verbatim>\<open>source.start()\<close>. It raises on a source that was started before; the component calls
  it on the node it has just created.\<close>

definition source_start :: "nat \<Rightarrow> web_audio \<Rightarrow> web_audio" where
  "source_start a w = update_source a (\<lambda>n. n\<lparr> started := True \<rparr>) w"

text \<open>\<^verbatim>\<open>source.stop()\<close>.\<close>

definition source_stop :: "nat \<Rightarrow> web_audio \<Rightarrow> failure + web_audio" where
  "source_stop a w =
     (if \<not> started (sources w a) \<or> (stop_raises_when_ended w \<and> ended (sources w a))
      then Inl InvalidStateError
      else Inr (update_source a (\<lambda>n. n\<lparr> stop_called := True \<rparr>) w))"

text \<open>A source produces output while it has been started, neither stopped nor played to
  its end, and its context is not closed. A live session is such a source.\<close>

definition live :: "web_audio \<Rightarrow> nat \<Rightarrow> bool" where
  "live w a =
     (started (sources w a) \<and> \<not> stop_called (sources w a) \<and> \<not> ended (sources w a)
      \<and> contexts w (node_context (sources w a)) \<noteq> closed)"

definition live_sessions :: "web_audio \<Rightarrow> nat list" where
  "live_sessions w = filter (live w) [0..<n_sources w]"

section \<open>The story viewer\<close>

text \<open>
  One instance of the component: its props, its four pieces of React state, its two refs,
  the browser's audio objects, and where the asynchronous function \<^verbatim>\<open>prefetchAssets\<close>
  stands. \<open>awaiting\<close> holds the calls of \<^verbatim>\<open>handlePlayPauseToggle\<close> that are suspended at their
  \<^verbatim>\<open>await\<close>, each with the context and the call whose promise it awaits.
  \<open>closure_storyPages\<close> is the \<^verbatim>\<open>storyPages\<close> array that \<^verbatim>\<open>prefetchAssets\<close> closed over
  (the effect runs after the first render only, so it is the initial array);
  \<open>requests\<close> lists the calls made to \<^verbatim>\<open>generateImage\<close> and \<^verbatim>\<open>generateSpeech\<close>, in order.
\<close>

datatype PlaybackStatus = playing | paused | stopped

datatype asset = Image | Audio

datatype prefetch_pc =
  AwaitImage nat
  | AwaitAudio nat
  | Returned
  | Failed failure

record StoryViewer =
  pages :: "StoryPage list"
  currentPageIndex :: nat
  storyPages :: "StoryPageState list"
  playbackStatus :: PlaybackStatus
  shouldAutoplay :: bool
  audioContextRef :: "nat option"
  audioSourceRef :: "nat option"
  audio :: web_audio
  pc :: prefetch_pc
  closure_storyPages :: "StoryPageState list"
  requests :: "(nat \<times> asset) list"
  awaiting :: "(nat \<times> context_call) list"

text \<open>\<^verbatim>\<open>setStoryPages(updater)\<close>. An updater's result that is no array of page records
  cannot be stored in this model of the state.\<close>

definition setStoryPages :: "(StoryPageState list \<Rightarrow> pages_array) \<Rightarrow> StoryViewer \<Rightarrow> failure + StoryViewer" where
  "setStoryPages updater s =
     (case updater (storyPages s) of
        Pages new \<Rightarrow> Inr (s\<lparr> storyPages := new \<rparr>)
      | Sparse _ _ _ \<Rightarrow> Inl NotAPageArray)"

subsection \<open>Playback\<close>

text \<open>
  \<^verbatim>\<open>stopAudio\<close>. The call of \<^verbatim>\<open>stop()\<close> stands in a \<^verbatim>\<open>try\<close> whose \<^verbatim>\<open>catch\<close> only logs, so a
  failure of \<^verbatim>\<open>stop()\<close> leaves the store as it was after \<^verbatim>\<open>onended = null\<close>.
  \<^verbatim>\<open>close()\<close> returns a promise that is not awaited.
\<close>

definition stopAudio :: "StoryViewer \<Rightarrow> failure + StoryViewer" where
  "stopAudio s =
     (let w1 = (case audioSourceRef s of
                  None \<Rightarrow> audio s
                | Some a \<Rightarrow>
                    (let w0 = update_source a (\<lambda>n. n\<lparr> onended := None \<rparr>) (audio s)
                     in case source_stop a w0 of Inl e \<Rightarrow> w0 | Inr w \<Rightarrow> w));
          w2 = (case audioContextRef s of
                  None \<Rightarrow> w1
                | Some c \<Rightarrow>
                    if contexts w1 c \<noteq> closed then set_context_state c closed w1 else w1)
      in Inr (s\<lparr> audio := w2, audioSourceRef := None, audioContextRef := None,
                 playbackStatus := stopped \<rparr>))"

text \<open>
  \<^verbatim>\<open>playAudioForCurrentPage\<close>. \<^verbatim>\<open>currentPage\<close> is \<^verbatim>\<open>storyPages[currentPageIndex]\<close>; reading
  a property of \<^verbatim>\<open>undefined\<close> raises. The function is declared \<^verbatim>\<open>async\<close> but awaits
  nothing: it runs to its end when called.
\<close>

definition playAudioForCurrentPage :: "StoryViewer \<Rightarrow> failure + StoryViewer" where
  "playAudioForCurrentPage s =
     (if currentPageIndex s < length (storyPages s) then
        (case audioBuffer (storyPages s ! currentPageIndex s) of
           None \<Rightarrow> Inr s
         | Some b \<Rightarrow>
             (case stopAudio s of
                Inl e \<Rightarrow> Inl e
              | Inr s1 \<Rightarrow>
                  (let (context, w1) = new_AudioContext (audio s1);
                       (source, w2) = createBufferSource context w1;
                       w3 = update_source source (\<lambda>n. n\<lparr> buffer := Some b \<rparr>) w2;
                       w4 = update_source source (\<lambda>n. n\<lparr> connected := True \<rparr>) w3;
                       w5 = update_source source (\<lambda>n. n\<lparr> onended := Some StopUnlessSuspended \<rparr>) w4;
                       w6 = source_start source w5
                   in Inr (s1\<lparr> audio := w6, audioContextRef := Some context,
                                audioSourceRef := Some source, playbackStatus := playing \<rparr>))))
      else Inl TypeError)"

text \<open>The handler that \<^verbatim>\<open>playAudioForCurrentPage\<close> installs as \<^verbatim>\<open>source.onended\<close>:
  \<^verbatim>\<open>if (audioContextRef.current?.state !== 'suspended') stopAudio()\<close>.\<close>

definition run_ended_handler :: "ended_handler \<Rightarrow> StoryViewer \<Rightarrow> failure + StoryViewer" where
  "run_ended_handler h s =
     (case h of StopUnlessSuspended \<Rightarrow>
        (if (case audioContextRef s of None \<Rightarrow> True
             | Some c \<Rightarrow> contexts (audio s) c \<noteq> suspended)
         then stopAudio s else Inr s))"

text \<open>The autoplay effect (the second \<^verbatim>\<open>useEffect\<close>). The promise of
  \<^verbatim>\<open>playAudioForCurrentPage()\<close> is not awaited: were it rejected, the effect would go on.\<close>

definition autoplay_effect :: "StoryViewer \<Rightarrow> failure + StoryViewer" where
  "autoplay_effect s =
     (if shouldAutoplay s then
        (if currentPageIndex s < length (storyPages s) then
           (case audioBuffer (storyPages s ! currentPageIndex s) of
              None \<Rightarrow> Inr s
            | Some b \<Rightarrow>
                (case playAudioForCurrentPage s of
                   Inl e \<Rightarrow> Inr (s\<lparr> shouldAutoplay := False \<rparr>)
                 | Inr s1 \<Rightarrow> Inr (s1\<lparr> shouldAutoplay := False \<rparr>)))
         else Inl TypeError)
      else Inr s)"

text \<open>
  \<^verbatim>\<open>handlePlayPauseToggle\<close> is an asynchronous function. \<^verbatim>\<open>playbackStatus\<close> is the value of
  the render the handler belongs to. In the branches for \<^verbatim>\<open>'playing'\<close> and \<^verbatim>\<open>'paused'\<close> it
  calls \<^verbatim>\<open>suspend()\<close> or \<^verbatim>\<open>resume()\<close> and awaits the promise; only when that has been
  fulfilled does it call \<^verbatim>\<open>setPlaybackStatus\<close>. \<open>toggle_to_await\<close> is the handler up to that
  \<^verbatim>\<open>await\<close> (or to its end, when a guard fails or the status is \<^verbatim>\<open>'stopped'\<close>:
  \<^verbatim>\<open>playAudioForCurrentPage\<close> awaits nothing and nothing follows it); it returns the state
  and the call it awaits. \<open>toggle_after_await\<close> is what the handler does when it goes on.
  Other events can be handled in between: the events below run the two parts apart.
  \<open>handlePlayPauseToggle\<close> is the whole handler, awaited to its end with nothing in
  between.
\<close>

definition toggle_to_await :: "StoryViewer \<Rightarrow> failure + StoryViewer \<times> (nat \<times> context_call) option" where
  "toggle_to_await s0 =
     (let s = s0\<lparr> shouldAutoplay := False \<rparr> in
      case playbackStatus s0 of
        playing \<Rightarrow>
          (case audioContextRef s of
             None \<Rightarrow> Inr (s, None)
           | Some c \<Rightarrow>
               if contexts (audio s) c = running
               then Inr (s, Some (c, Suspend))
               else Inr (s, None))
      | paused \<Rightarrow>
          (case audioContextRef s of
             None \<Rightarrow> Inr (s, None)
           | Some c \<Rightarrow>
               if contexts (audio s) c = suspended
               then Inr (s, Some (c, Resume))
               else Inr (s, None))
      | stopped \<Rightarrow>
          (case playAudioForCurrentPage s of Inl e \<Rightarrow> Inl e | Inr s1 \<Rightarrow> Inr (s1, None)))"

definition toggle_after_await :: "context_call \<Rightarrow> StoryViewer \<Rightarrow> StoryViewer" where
  "toggle_after_await k s =
     (case k of
        Suspend \<Rightarrow> s\<lparr> playbackStatus := paused \<rparr>
      | Resume \<Rightarrow> s\<lparr> playbackStatus := playing \<rparr>)"

definition handlePlayPauseToggle :: "StoryViewer \<Rightarrow> failure + StoryViewer" where
  "handlePlayPauseToggle s =
     (case toggle_to_await s of
        Inl e \<Rightarrow> Inl e
      | Inr (s1, None) \<Rightarrow> Inr s1
      | Inr (s1, Some (c, k)) \<Rightarrow>
          Inr (toggle_after_await k (s1\<lparr> audio := call_done c k (audio s1) \<rparr>)))"

subsection \<open>Navigation\<close>

text \<open>\<^verbatim>\<open>currentPageIndex < storyPages.length - 1\<close> is a comparison of JavaScript numbers:
  for an empty array the right side is \<open>-1\<close>, so it is written over \<open>int\<close>.\<close>

definition handleNextPage :: "StoryViewer \<Rightarrow> failure + StoryViewer" where
  "handleNextPage s =
     (if int (currentPageIndex s) < int (length (storyPages s)) - 1 then
        (case stopAudio s of
           Inl e \<Rightarrow> Inl e
         | Inr s1 \<Rightarrow>
             Inr (s1\<lparr> currentPageIndex := currentPageIndex s1 + 1, shouldAutoplay := True \<rparr>))
      else Inr s)"

definition handlePrevPage :: "StoryViewer \<Rightarrow> failure + StoryViewer" where
  "handlePrevPage s =
     (if currentPageIndex s > 0 then
        (case stopAudio s of
           Inl e \<Rightarrow> Inl e
         | Inr s1 \<Rightarrow>
             Inr (s1\<lparr> currentPageIndex := currentPageIndex s1 - 1, shouldAutoplay := False \<rparr>))
      else Inr s)"

subsection \<open>The prefetch pipeline\<close>

text \<open>
  \<^verbatim>\<open>prefetchAssets\<close> is an asynchronous function: a \<^verbatim>\<open>for\<close> loop over the pages whose body
  awaits \<^verbatim>\<open>generateImage\<close> and then \<^verbatim>\<open>generateSpeech\<close> (and the decoding of its result).
  It runs until it reaches an \<^verbatim>\<open>await\<close>, stays suspended there while the component handles
  other events, and goes on when the awaited promise settles. \<open>pc\<close> is the \<^verbatim>\<open>await\<close> it is
  suspended at. \<open>image_part i\<close> is the loop from its head at page \<open>i\<close>, \<open>audio_part i\<close> the
  body from its second \<^verbatim>\<open>if\<close>; both run to the next \<^verbatim>\<open>await\<close> or to the end of the loop
  (\<open>Returned\<close>). \<open>Failed\<close> is the function ended by an exception outside its \<^verbatim>\<open>try\<close>
  blocks (\<^verbatim>\<open>storyPages[i]\<close> is \<^verbatim>\<open>undefined\<close> when the closed-over array is shorter than
  \<^verbatim>\<open>pages\<close>), or a page array this model cannot hold; neither happens to a mounted viewer
  (\<open>prefetch_inv\<close> below). A string is truthy when it is not empty.
\<close>

datatype 'a settled = Fulfilled 'a | Rejected

definition truthy :: "string option \<Rightarrow> bool" where
  "truthy v = (case v of None \<Rightarrow> False | Some str \<Rightarrow> str \<noteq> [])"

function image_part :: "nat \<Rightarrow> StoryViewer \<Rightarrow> StoryViewer"
  and audio_part :: "nat \<Rightarrow> StoryViewer \<Rightarrow> StoryViewer" where
  "image_part i s =
     (if i < length (pages s) then
        (if imagePrompt (pages s ! i) \<noteq> [] then
           (if i < length (closure_storyPages s) then
              (if \<not> truthy (imageUrl (closure_storyPages s ! i)) then
                 (case setStoryPages (updatePage i (no_updates\<lparr> p_isImageLoading := Some True \<rparr>)) s of
                    Inl e \<Rightarrow> s\<lparr> pc := Failed e \<rparr>
                  | Inr s1 \<Rightarrow> s1\<lparr> requests := requests s1 @ [(i, Image)], pc := AwaitImage i \<rparr>)
               else audio_part i s)
            else s\<lparr> pc := Failed TypeError \<rparr>)
         else audio_part i s)
      else s\<lparr> pc := Returned \<rparr>)"
| "audio_part i s =
     (if text' (pages s ! i) \<noteq> [] then
        (if i < length (closure_storyPages s) then
           (if audioBuffer (closure_storyPages s ! i) = None then
              (case setStoryPages (updatePage i (no_updates\<lparr> p_isAudioLoading := Some True \<rparr>)) s of
                 Inl e \<Rightarrow> s\<lparr> pc := Failed e \<rparr>
               | Inr s1 \<Rightarrow> s1\<lparr> requests := requests s1 @ [(i, Audio)], pc := AwaitAudio i \<rparr>)
            else image_part (Suc i) s)
         else s\<lparr> pc := Failed TypeError \<rparr>)
      else image_part (Suc i) s)"
  by pat_completeness auto
termination
  by (relation "measure (\<lambda>x. case x of
          Inl (i, s) \<Rightarrow> 2 * (length (pages s) - i)
        | Inr (i, s) \<Rightarrow> 2 * (length (pages s) - Suc i) + 1)") auto

text \<open>The pipeline goes on after \<^verbatim>\<open>await generateImage(...)\<close>: the \<^verbatim>\<open>try\<close> stores the URL, the
  \<^verbatim>\<open>catch\<close> sets the error flag; then the audio part of the same page.\<close>

definition image_settled :: "string settled \<Rightarrow> StoryViewer \<Rightarrow> StoryViewer" where
  "image_settled r s =
     (case pc s of
        AwaitImage i \<Rightarrow>
          (case setStoryPages (updatePage i
                  (case r of
                     Fulfilled url \<Rightarrow> no_updates\<lparr> p_imageUrl := Some (Some url), p_isImageLoading := Some False \<rparr>
                   | Rejected \<Rightarrow> no_updates\<lparr> p_isImageLoading := Some False, p_imageError := Some True \<rparr>)) s of
             Inl e \<Rightarrow> s\<lparr> pc := Failed e \<rparr>
           | Inr s1 \<Rightarrow> audio_part i s1)
      | _ \<Rightarrow> s)"

text \<open>The same after the audio \<^verbatim>\<open>try\<close> block, whose awaits (\<^verbatim>\<open>generateSpeech\<close>,
  \<^verbatim>\<open>decodeAudioData\<close>, closing the temporary context) update nothing until all three are
  through: the block either reaches its \<^verbatim>\<open>updatePage\<close> with the audio data and the decoded
  buffer, or control passes to the \<^verbatim>\<open>catch\<close>. Then the next page.\<close>

definition audio_settled :: "(string \<times> AudioBuffer) settled \<Rightarrow> StoryViewer \<Rightarrow> StoryViewer" where
  "audio_settled r s =
     (case pc s of
        AwaitAudio i \<Rightarrow>
          (case setStoryPages (updatePage i
                  (case r of
                     Fulfilled (data, buf) \<Rightarrow>
                       no_updates\<lparr> p_audioData := Some (Some data), p_audioBuffer := Some (Some buf),
                                   p_isAudioLoading := Some False \<rparr>
                   | Rejected \<Rightarrow> no_updates\<lparr> p_isAudioLoading := Some False, p_audioError := Some True \<rparr>)) s of
             Inl e \<Rightarrow> s\<lparr> pc := Failed e \<rparr>
           | Inr s1 \<Rightarrow> image_part (Suc i) s1)
      | _ \<Rightarrow> s)"

subsection \<open>Rendering, effects and events\<close>

text \<open>
  A render reads \<^verbatim>\<open>currentPage.audioBuffer\<close> with \<^verbatim>\<open>currentPage = storyPages[currentPageIndex]\<close>,
  which raises when there is no such page. After a render React runs the autoplay effect
  when one of its dependencies changed: \<^verbatim>\<open>shouldAutoplay\<close>, \<^verbatim>\<open>currentPageIndex\<close>, the current
  page's \<^verbatim>\<open>audioBuffer\<close> (and \<^verbatim>\<open>playAudioForCurrentPage\<close>, which changes with that buffer).
  \<open>commit rendered s\<close> is the render of \<open>s\<close> after the render of \<open>rendered\<close>, with the effect
  run. The state the effect sets is rendered once more; that render's effect finds
  \<^verbatim>\<open>shouldAutoplay\<close> false and changes nothing (\<open>rerender_after_effect\<close> below).
\<close>

definition render :: "StoryViewer \<Rightarrow> failure + StoryViewer" where
  "render s = (if currentPageIndex s < length (storyPages s) then Inr s else Inl TypeError)"

definition autoplay_deps :: "StoryViewer \<Rightarrow> bool \<times> nat \<times> AudioBuffer option" where
  "autoplay_deps s =
     (shouldAutoplay s, currentPageIndex s,
      if currentPageIndex s < length (storyPages s)
      then audioBuffer (storyPages s ! currentPageIndex s) else None)"

definition commit :: "StoryViewer \<Rightarrow> StoryViewer \<Rightarrow> failure + StoryViewer" where
  "commit rendered s =
     (case render s of
        Inl e \<Rightarrow> Inl e
      | Inr _ \<Rightarrow> if autoplay_deps s = autoplay_deps rendered then Inr s else autoplay_effect s)"

text \<open>The initial state of \<^verbatim>\<open>useState\<close>, and the first render with its effects: the
  prefetch effect calls \<^verbatim>\<open>prefetchAssets()\<close>, then the autoplay effect runs.\<close>

definition initial_page :: "StoryPage \<Rightarrow> StoryPageState" where
  "initial_page p =
     \<lparr> text' = text' p, imagePrompt = imagePrompt p, imageUrl = imageUrl p,
       audioData = None, audioBuffer = None,
       isImageLoading = False, isAudioLoading = False, imageError = False, audioError = False \<rparr>"

definition initial_state :: "bool \<Rightarrow> StoryPage list \<Rightarrow> StoryViewer" where
  "initial_state quirk ps =
     \<lparr> pages = ps, currentPageIndex = 0, storyPages = map initial_page ps,
       playbackStatus = stopped, shouldAutoplay = False,
       audioContextRef = None, audioSourceRef = None, audio = no_audio quirk,
       pc = Returned, closure_storyPages = map initial_page ps, requests = [],
       awaiting = [] \<rparr>"

definition mount :: "bool \<Rightarrow> StoryPage list \<Rightarrow> failure + StoryViewer" where
  "mount quirk ps =
     (case render (initial_state quirk ps) of
        Inl e \<Rightarrow> Inl e
      | Inr s0 \<Rightarrow> autoplay_effect (image_part 0 s0))"

text \<open>What happens to a mounted viewer: the three buttons, the settling of the fetch the
  pipeline waits for, and a source that plays to the end of its buffer (the browser then
  calls its \<^verbatim>\<open>onended\<close> handler, if it has one). The buttons are disabled in some states
  (at the first and last page, and the play button while the page has no audio); their
  handlers are taken as callable in every state, which is more than the buttons allow.
  A click on the play button runs \<^verbatim>\<open>handlePlayPauseToggle\<close> to its \<^verbatim>\<open>await\<close>. The browser may
  then carry out the awaited call at any moment (\<open>ContextCallDone\<close>); when the promise
  settles (\<open>ToggleAwaited\<close>) the call has been carried out if the promise is fulfilled,
  and the rest of the handler runs; were the promise rejected, the handler would end
  there. Any of the suspended calls may be the next to go on; the source that plays can
  reach its end, and the other buttons can be clicked, before that. Every other handler
  awaits nothing; each event is rendered before the next one is handled.\<close>

datatype event =
  NextPage
  | PrevPage
  | PlayPauseToggle
  | ImageSettled "string settled"
  | AudioSettled "(string \<times> AudioBuffer) settled"
  | SourceEnded nat
  | ContextCallDone nat
  | ToggleAwaited nat "unit settled"

fun enabled :: "event \<Rightarrow> StoryViewer \<Rightarrow> bool" where
  "enabled (ImageSettled r) s = (case pc s of AwaitImage i \<Rightarrow> True | _ \<Rightarrow> False)"
| "enabled (AudioSettled r) s = (case pc s of AwaitAudio i \<Rightarrow> True | _ \<Rightarrow> False)"
| "enabled (SourceEnded a) s =
     (a < n_sources (audio s) \<and> live (audio s) a
      \<and> contexts (audio s) (node_context (sources (audio s) a)) = running)"
| "enabled (ContextCallDone i) s = (i < length (awaiting s))"
| "enabled (ToggleAwaited i r) s = (i < length (awaiting s))"
| "enabled _ s = True"

fun react :: "event \<Rightarrow> StoryViewer \<Rightarrow> failure + StoryViewer" where
  "react NextPage s = handleNextPage s"
| "react PrevPage s = handlePrevPage s"
| "react PlayPauseToggle s =
     (case toggle_to_await s of
        Inl e \<Rightarrow> Inl e
      | Inr (s1, k) \<Rightarrow>
          Inr (s1\<lparr> awaiting := awaiting s1 @ (case k of None \<Rightarrow> [] | Some c \<Rightarrow> [c]) \<rparr>))"
| "react (ImageSettled r) s = Inr (image_settled r s)"
| "react (AudioSettled r) s = Inr (audio_settled r s)"
| "react (SourceEnded a) s =
     (let s1 = s\<lparr> audio := update_source a (\<lambda>n. n\<lparr> ended := True \<rparr>) (audio s) \<rparr>
      in case onended (sources (audio s) a) of
           None \<Rightarrow> Inr s1
         | Some h \<Rightarrow> run_ended_handler h s1)"
| "react (ContextCallDone i) s =
     (if i < length (awaiting s) then
        (case awaiting s ! i of
           (c, k) \<Rightarrow> Inr (s\<lparr> audio := call_done c k (audio s) \<rparr>))
      else Inr s)"
| "react (ToggleAwaited i r) s =
     (if i < length (awaiting s) then
        (case awaiting s ! i of
           (c, k) \<Rightarrow>
             (let s1 = s\<lparr> awaiting := take i (awaiting s) @ drop (Suc i) (awaiting s) \<rparr>
              in case r of
                   Fulfilled u \<Rightarrow>
                     Inr (toggle_after_await k (s1\<lparr> audio := call_done c k (audio s1) \<rparr>))
                 | Rejected \<Rightarrow> Inr s1))
      else Inr s)"

definition dispatch :: "event \<Rightarrow> StoryViewer \<Rightarrow> failure + StoryViewer" where
  "dispatch e s = (case react e s of Inl x \<Rightarrow> Inl x | Inr s1 \<Rightarrow> commit s s1)"

inductive reachable :: "StoryViewer \<Rightarrow> bool" where
  mounted: "mount quirk ps = Inr s \<Longrightarrow> reachable s"
| step: "reachable s \<Longrightarrow> enabled e s \<Longrightarrow> dispatch e s = Inr s1 \<Longrightarrow> reachable s1"

subsection \<open>Invariants of the reachable states\<close>

text \<open>The controller's bookkeeping: both refs are set together; a source names a context
  that exists; while the refs are set the status is not \<open>stopped\<close>; and every live source
  is the one \<open>audioSourceRef\<close> holds. The status says no more than that about the refs: a
  \<^verbatim>\<open>setPlaybackStatus\<close> that a suspended toggle makes late can leave the status \<open>paused\<close> or
  \<open>playing\<close> whatever the refs hold by then.\<close>

definition contexts_allocated :: "web_audio \<Rightarrow> bool" where
  "contexts_allocated w = (\<forall>a<n_sources w. node_context (sources w a) < n_contexts w)"

definition owns_live_sources :: "StoryViewer \<Rightarrow> bool" where
  "owns_live_sources s = (\<forall>a<n_sources (audio s). live (audio s) a \<longrightarrow> audioSourceRef s = Some a)"

definition refs_paired :: "StoryViewer \<Rightarrow> bool" where
  "refs_paired s =
     (case (audioSourceRef s, audioContextRef s) of
        (None, None) \<Rightarrow> True
      | (Some a, Some c) \<Rightarrow>
          a < n_sources (audio s) \<and> c < n_contexts (audio s)
          \<and> node_context (sources (audio s) a) = c
          \<and> playbackStatus s \<noteq> stopped
      | _ \<Rightarrow> False)"

definition session_inv :: "StoryViewer \<Rightarrow> bool" where
  "session_inv s = (contexts_allocated (audio s) \<and> owns_live_sources s \<and> refs_paired s)"

text \<open>The pipeline's bookkeeping. Requests are ordered by page, the image of a page before
  its audio.\<close>

definition precedes :: "nat \<times> asset \<Rightarrow> nat \<times> asset \<Rightarrow> bool" where
  "precedes r q = (fst r < fst q \<or> (fst r = fst q \<and> snd r = Image \<and> snd q = Audio))"

definition arrays_aligned :: "StoryViewer \<Rightarrow> bool" where
  "arrays_aligned s =
     (length (storyPages s) = length (pages s)
      \<and> closure_storyPages s = map initial_page (pages s))"

definition unrequested_untouched :: "StoryViewer \<Rightarrow> bool" where
  "unrequested_untouched s =
     (\<forall>j<length (pages s).
        ((j, Image) \<notin> set (requests s) \<longrightarrow>
           imageUrl (storyPages s ! j) = imageUrl (pages s ! j)
           \<and> \<not> isImageLoading (storyPages s ! j) \<and> \<not> imageError (storyPages s ! j))
      \<and> ((j, Audio) \<notin> set (requests s) \<longrightarrow>
           audioBuffer (storyPages s ! j) = None \<and> audioData (storyPages s ! j) = None
           \<and> \<not> isAudioLoading (storyPages s ! j) \<and> \<not> audioError (storyPages s ! j)))"

definition waits_for_last_request :: "StoryViewer \<Rightarrow> bool" where
  "waits_for_last_request s =
     (case pc s of
        AwaitImage i \<Rightarrow>
          i < length (pages s) \<and> requests s \<noteq> [] \<and> last (requests s) = (i, Image)
      | AwaitAudio i \<Rightarrow>
          i < length (pages s) \<and> requests s \<noteq> [] \<and> last (requests s) = (i, Audio)
          \<and> audioBuffer (storyPages s ! i) = None
      | Returned \<Rightarrow> True
      | Failed e \<Rightarrow> False)"

definition prefetch_inv :: "StoryViewer \<Rightarrow> bool" where
  "prefetch_inv s =
     (arrays_aligned s \<and> sorted_wrt precedes (requests s)
      \<and> unrequested_untouched s \<and> waits_for_last_request s)"

text \<open>What the pipeline's invariant needs while the loop runs, before the next
  \<^verbatim>\<open>await\<close> is reached.\<close>

definition pipeline_base :: "StoryViewer \<Rightarrow> bool" where
  "pipeline_base s =
     (arrays_aligned s \<and> sorted_wrt precedes (requests s) \<and> unrequested_untouched s)"

text \<open>The fields the pipeline never writes, and the fields the handlers never write.\<close>

definition same_controller :: "StoryViewer \<Rightarrow> StoryViewer \<Rightarrow> bool" where
  "same_controller s1 s =
     (audio s1 = audio s \<and> audioSourceRef s1 = audioSourceRef s
      \<and> audioContextRef s1 = audioContextRef s \<and> playbackStatus s1 = playbackStatus s
      \<and> currentPageIndex s1 = currentPageIndex s \<and> shouldAutoplay s1 = shouldAutoplay s
      \<and> pages s1 = pages s \<and> closure_storyPages s1 = closure_storyPages s)"

definition same_pipeline :: "StoryViewer \<Rightarrow> StoryViewer \<Rightarrow> bool" where
  "same_pipeline s1 s =
     (pages s1 = pages s \<and> storyPages s1 = storyPages s
      \<and> closure_storyPages s1 = closure_storyPages s \<and> requests s1 = requests s
      \<and> pc s1 = pc s)"

text \<open>From one state to a later one the list of requests only grows at its end, and an
  error flag that is set stays set.\<close>

definition pipeline_advanced :: "StoryViewer \<Rightarrow> StoryViewer \<Rightarrow> bool" where
  "pipeline_advanced s s1 =
     (take (length (requests s)) (requests s1) = requests s
      \<and> length (storyPages s1) = length (storyPages s)
      \<and> (\<forall>j<length (storyPages s).
            (imageError (storyPages s ! j) \<longrightarrow> imageError (storyPages s1 ! j))
          \<and> (audioError (storyPages s ! j) \<longrightarrow> audioError (storyPages s1 ! j))))"

subsection \<open>A story of two pages\<close>

text \<open>The story of the specification's end-to-end scenario, used to run the model, and
  what to look at in a state: the state of the context the controller holds, the state
  after a whole \<open>handlePlayPauseToggle\<close>, the session (status, state of the held context,
  live sources, toggles that wait), and the loading flags of all pages (image, audio).\<close>

definition two_pages :: "StoryPage list" where
  "two_pages =
     [\<lparr> text' = ''A'', imagePrompt = ''p1'', imageUrl = None \<rparr>,
      \<lparr> text' = ''B'', imagePrompt = ''p2'', imageUrl = None \<rparr>]"




definition loading_flags :: "StoryViewer \<Rightarrow> (bool \<times> bool) list" where
  "loading_flags s = map (\<lambda>p. (isImageLoading p, isAudioLoading p)) (storyPages s)"

fun after_events :: "event list \<Rightarrow> StoryViewer \<Rightarrow> StoryViewer option" where
  "after_events [] s = Some s"
| "after_events (e # es) s =
     (if enabled e s
      then (case dispatch e s of Inl x \<Rightarrow> None | Inr s1 \<Rightarrow> after_events es s1)
      else None)"

definition story_run :: "bool \<Rightarrow> StoryPage list \<Rightarrow> event list \<Rightarrow> StoryViewer option" where
  "story_run quirk ps es = (case mount quirk ps of Inl x \<Rightarrow> None | Inr s \<Rightarrow> after_events es s)"




section \<open>Properties\<close>

subsection \<open>Stopping and starting a session\<close>

lemma stopAudio_Inr: "\<exists>s1. stopAudio s = Inr s1"
  by (simp add: stopAudio_def Let_def)

lemma stopAudio_n_sources:
  assumes "stopAudio s = Inr s1"
  shows "n_sources (audio s1) = n_sources (audio s)"
  using assms
  by (cases "audioSourceRef s"; cases "audioContextRef s")
     (auto simp: stopAudio_def Let_def source_stop_def update_source_def set_context_state_def)

lemma stopAudio_n_contexts:
  assumes "stopAudio s = Inr s1"
  shows "n_contexts (audio s1) = n_contexts (audio s)"
  using assms
  by (cases "audioSourceRef s"; cases "audioContextRef s")
     (auto simp: stopAudio_def Let_def source_stop_def update_source_def set_context_state_def)

lemma stopAudio_contexts:
  assumes "stopAudio s = Inr s1"
  shows "contexts (audio s1) c = (if audioContextRef s = Some c then closed else contexts (audio s) c)"
  using assms
  by (cases "audioSourceRef s"; cases "audioContextRef s")
     (auto simp: stopAudio_def Let_def source_stop_def update_source_def set_context_state_def)

lemma stopAudio_sources:
  assumes "stopAudio s = Inr s1"
  shows "sources (audio s1) a =
     (if audioSourceRef s = Some a
      then (sources (audio s) a)\<lparr> onended := None,
              stop_called := (if \<not> started (sources (audio s) a)
                                 \<or> (stop_raises_when_ended (audio s) \<and> ended (sources (audio s) a))
                              then stop_called (sources (audio s) a) else True) \<rparr>
      else sources (audio s) a)"
  using assms
  by (cases "audioSourceRef s"; cases "audioContextRef s")
     (auto simp: stopAudio_def Let_def source_stop_def update_source_def set_context_state_def)


lemma stopAudio_no_live:
  assumes "stopAudio s = Inr s1" "owns_live_sources s" "a < n_sources (audio s)"
  shows "\<not> live (audio s1) a"
proof (cases "audioSourceRef s = Some a")
  case True
  then show ?thesis
    by (simp add: live_def stopAudio_sources[OF assms(1)])
next
  case False
  with assms(2,3) have "\<not> live (audio s) a"
    by (auto simp: owns_live_sources_def)
  with False show ?thesis
    by (auto simp: live_def stopAudio_sources[OF assms(1)] stopAudio_contexts[OF assms(1)])
qed

lemma stopAudio_fields:
  assumes "stopAudio s = Inr s1"
  shows "audioSourceRef s1 = None" "audioContextRef s1 = None" "playbackStatus s1 = stopped"
    "currentPageIndex s1 = currentPageIndex s" "storyPages s1 = storyPages s"
    "shouldAutoplay s1 = shouldAutoplay s" "pages s1 = pages s" "pc s1 = pc s"
    "closure_storyPages s1 = closure_storyPages s" "requests s1 = requests s"
  using assms by (auto simp: stopAudio_def Let_def)

lemma stopAudio_session_inv:
  assumes "stopAudio s = Inr s1" "session_inv s"
  shows "session_inv s1"
proof -
  note f = stopAudio_fields[OF assms(1)] stopAudio_n_sources[OF assms(1)] stopAudio_n_contexts[OF assms(1)]
  have "contexts_allocated (audio s1)"
    using assms(2) by (auto simp: session_inv_def contexts_allocated_def f stopAudio_sources[OF assms(1)])
  moreover have "owns_live_sources s1"
    using assms(2) stopAudio_no_live[OF assms(1)]
    by (auto simp: session_inv_def owns_live_sources_def f)
  moreover have "refs_paired s1"
    by (simp add: refs_paired_def f)
  ultimately show ?thesis by (simp add: session_inv_def)
qed

lemma play_result:
  assumes "currentPageIndex s < length (storyPages s)"
    "audioBuffer (storyPages s ! currentPageIndex s) = Some b" "stopAudio s = Inr s1"
  shows "playAudioForCurrentPage s =
    Inr (s1\<lparr> audio := (audio s1)\<lparr>
              contexts := (contexts (audio s1))(n_contexts (audio s1) := running),
              n_contexts := Suc (n_contexts (audio s1)),
              sources := (sources (audio s1))(n_sources (audio s1) :=
                 \<lparr> buffer = Some b, node_context = n_contexts (audio s1), connected = True,
                   onended = Some StopUnlessSuspended, started = True, stop_called = False,
                   ended = False \<rparr>),
              n_sources := Suc (n_sources (audio s1)) \<rparr>,
           audioContextRef := Some (n_contexts (audio s1)),
           audioSourceRef := Some (n_sources (audio s1)),
           playbackStatus := playing \<rparr>)"
  using assms
  by (simp add: playAudioForCurrentPage_def new_AudioContext_def createBufferSource_def
      update_source_def source_start_def Let_def)

lemma play_no_buffer:
  assumes "currentPageIndex s < length (storyPages s)"
    "audioBuffer (storyPages s ! currentPageIndex s) = None"
  shows "playAudioForCurrentPage s = Inr s"
  using assms by (simp add: playAudioForCurrentPage_def)


lemma play_session:
  assumes inv: "session_inv s"
    and idx: "currentPageIndex s < length (storyPages s)"
    and buf: "audioBuffer (storyPages s ! currentPageIndex s) = Some b"
  shows "\<exists>s2. playAudioForCurrentPage s = Inr s2 \<and> session_inv s2
     \<and> live_sessions (audio s2) = [n_sources (audio s)]
     \<and> audioSourceRef s2 = Some (n_sources (audio s))
     \<and> audioContextRef s2 = Some (n_contexts (audio s))
     \<and> buffer (sources (audio s2) (n_sources (audio s))) = Some b
     \<and> contexts (audio s2) (n_contexts (audio s)) = running
     \<and> playbackStatus s2 = playing
     \<and> n_sources (audio s2) = Suc (n_sources (audio s))
     \<and> n_contexts (audio s2) = Suc (n_contexts (audio s))
     \<and> currentPageIndex s2 = currentPageIndex s \<and> storyPages s2 = storyPages s
     \<and> shouldAutoplay s2 = shouldAutoplay s \<and> pages s2 = pages s \<and> pc s2 = pc s
     \<and> closure_storyPages s2 = closure_storyPages s \<and> requests s2 = requests s"
proof -
  obtain s1 where s1: "stopAudio s = Inr s1"
    using stopAudio_Inr by blast
  note f = stopAudio_fields[OF s1] stopAudio_n_sources[OF s1] stopAudio_n_contexts[OF s1]
  have inv1: "session_inv s1"
    using stopAudio_session_inv[OF s1 inv] .
  have dead: "\<And>a. a < n_sources (audio s) \<Longrightarrow> \<not> live (audio s1) a"
    using stopAudio_no_live[OF s1] inv by (simp add: session_inv_def)
  have alloc: "\<And>a. a < n_sources (audio s) \<Longrightarrow> node_context (sources (audio s1) a) < n_contexts (audio s)"
    using inv1 by (simp add: session_inv_def contexts_allocated_def f)
  let ?s2 = "s1\<lparr> audio := (audio s1)\<lparr>
              contexts := (contexts (audio s1))(n_contexts (audio s1) := running),
              n_contexts := Suc (n_contexts (audio s1)),
              sources := (sources (audio s1))(n_sources (audio s1) :=
                 \<lparr> buffer = Some b, node_context = n_contexts (audio s1), connected = True,
                   onended = Some StopUnlessSuspended, started = True, stop_called = False,
                   ended = False \<rparr>),
              n_sources := Suc (n_sources (audio s1)) \<rparr>,
           audioContextRef := Some (n_contexts (audio s1)),
           audioSourceRef := Some (n_sources (audio s1)),
           playbackStatus := playing \<rparr>"
  have p: "playAudioForCurrentPage s = Inr ?s2"
    using play_result[OF idx buf s1] .
  have old: "\<not> live (audio ?s2) a" if "a < n_sources (audio s)" for a
  proof -
    have "node_context (sources (audio s1) a) \<noteq> n_contexts (audio s)"
      using alloc[OF that] by simp
    moreover have "\<not> live (audio s1) a"
      using dead[OF that] .
    ultimately show ?thesis
      using that by (simp add: live_def f)
  qed
  have new: "live (audio ?s2) (n_sources (audio s))"
    by (simp add: live_def f)
  have "filter (live (audio ?s2)) [0..<n_sources (audio s)] = []"
    using old by (simp add: filter_empty_conv)
  then have l: "live_sessions (audio ?s2) = [n_sources (audio s)]"
    using new by (simp add: live_sessions_def f)
  have a: "contexts_allocated (audio ?s2)"
    using alloc by (auto simp: contexts_allocated_def f less_Suc_eq)
  have o: "owns_live_sources ?s2"
    using old by (auto simp: owns_live_sources_def f less_Suc_eq)
  have m: "refs_paired ?s2"
    by (simp add: refs_paired_def f)
  have "session_inv ?s2"
    using a o m by (simp add: session_inv_def)
  then show ?thesis
    using p l by (simp add: f)
qed


lemma play_session_inv:
  assumes "session_inv s" "playAudioForCurrentPage s = Inr s2"
  shows "session_inv s2"
proof (cases "currentPageIndex s < length (storyPages s)")
  case False
  with assms(2) show ?thesis by (simp add: playAudioForCurrentPage_def)
next
  case True
  show ?thesis
  proof (cases "audioBuffer (storyPages s ! currentPageIndex s)")
    case None
    with True assms show ?thesis by (simp add: play_no_buffer)
  next
    case (Some b)
    from play_session[OF assms(1) True Some] assms(2) show ?thesis by auto
  qed
qed

lemma session_inv_frame:
  assumes "audio s1 = audio s" "audioSourceRef s1 = audioSourceRef s"
    "audioContextRef s1 = audioContextRef s" "playbackStatus s1 = playbackStatus s"
  shows "session_inv s1 = session_inv s"
  using assms
  by (simp add: session_inv_def owns_live_sources_def refs_paired_def
      cong: option.case_cong)

lemma session_stoppedD:
  assumes "session_inv s" "playbackStatus s = stopped"
  shows "audioSourceRef s = None \<and> audioContextRef s = None"
  using assms
  by (cases "audioSourceRef s"; cases "audioContextRef s")
     (simp_all add: session_inv_def refs_paired_def)

lemma session_inv_status:
  assumes "session_inv s" "st \<noteq> stopped"
  shows "session_inv (s\<lparr> playbackStatus := st \<rparr>)"
  using assms
  by (cases "audioSourceRef s"; cases "audioContextRef s")
     (simp_all add: session_inv_def owns_live_sources_def refs_paired_def)

lemma live_set_context_state:
  assumes "st \<noteq> closed" "contexts w c \<noteq> closed"
  shows "live (set_context_state c st w) a = live w a"
  using assms by (auto simp: live_def set_context_state_def)

lemma session_inv_set_context_state:
  assumes inv: "session_inv s"
    and st: "st \<noteq> closed" "contexts (audio s) c \<noteq> closed"
  shows "session_inv (s\<lparr> audio := set_context_state c st (audio s) \<rparr>)"
proof -
  have n: "n_sources (set_context_state c st (audio s)) = n_sources (audio s)"
    "n_contexts (set_context_state c st (audio s)) = n_contexts (audio s)"
    "sources (set_context_state c st (audio s)) = sources (audio s)"
    by (simp_all add: set_context_state_def)
  have 1: "contexts_allocated (set_context_state c st (audio s))"
    using inv by (simp add: session_inv_def contexts_allocated_def n)
  have 2: "owns_live_sources (s\<lparr> audio := set_context_state c st (audio s) \<rparr>)"
    using inv by (simp add: session_inv_def owns_live_sources_def n live_set_context_state[OF st])
  have 3: "refs_paired (s\<lparr> audio := set_context_state c st (audio s) \<rparr>)"
    using inv
    by (cases "audioSourceRef s"; cases "audioContextRef s")
       (simp_all add: session_inv_def refs_paired_def n)
  show ?thesis using 1 2 3 by (simp add: session_inv_def)
qed

lemma session_inv_call_done:
  assumes "session_inv s"
  shows "session_inv (s\<lparr> audio := call_done c k (audio s) \<rparr>)"
proof (cases "contexts (audio s) c = closed")
  case True
  then show ?thesis using assms by (simp add: call_done_def)
next
  case False
  have "session_inv (s\<lparr> audio := set_context_state c
      (case k of Suspend \<Rightarrow> suspended | Resume \<Rightarrow> running) (audio s) \<rparr>)"
    by (rule session_inv_set_context_state[OF assms _ False]) (cases k; simp)
  then show ?thesis using False by (simp add: call_done_def)
qed

lemma call_done_open:
  assumes "contexts w c \<noteq> closed"
  shows "call_done c Suspend w = set_context_state c suspended w"
    and "call_done c Resume w = set_context_state c running w"
  using assms by (simp_all add: call_done_def)

subsection \<open>The handlers keep the controller's bookkeeping\<close>

lemma toggle_to_await_playing:
  assumes "playbackStatus s = playing" "audioContextRef s = Some c" "contexts (audio s) c = running"
  shows "toggle_to_await s = Inr (s\<lparr> shouldAutoplay := False \<rparr>, Some (c, Suspend))"
  using assms by (simp add: toggle_to_await_def)

lemma toggle_to_await_paused:
  assumes "playbackStatus s = paused" "audioContextRef s = Some c" "contexts (audio s) c = suspended"
  shows "toggle_to_await s = Inr (s\<lparr> shouldAutoplay := False \<rparr>, Some (c, Resume))"
  using assms by (simp add: toggle_to_await_def)


lemma toggle_to_await_stopped:
  assumes "playbackStatus s = stopped"
  shows "toggle_to_await s =
     (case playAudioForCurrentPage (s\<lparr> shouldAutoplay := False \<rparr>) of
        Inl e \<Rightarrow> Inl e | Inr s1 \<Rightarrow> Inr (s1, None))"
  using assms by (simp add: toggle_to_await_def)

lemma toggle_playing:
  assumes "playbackStatus s = playing" "audioContextRef s = Some c" "contexts (audio s) c = running"
  shows "handlePlayPauseToggle s =
     Inr (s\<lparr> shouldAutoplay := False, audio := set_context_state c suspended (audio s),
              playbackStatus := paused \<rparr>)"
  using assms(3)
  by (simp add: handlePlayPauseToggle_def toggle_to_await_playing[OF assms] toggle_after_await_def
      call_done_open)

lemma toggle_paused:
  assumes "playbackStatus s = paused" "audioContextRef s = Some c" "contexts (audio s) c = suspended"
  shows "handlePlayPauseToggle s =
     Inr (s\<lparr> shouldAutoplay := False, audio := set_context_state c running (audio s),
              playbackStatus := playing \<rparr>)"
  using assms(3)
  by (simp add: handlePlayPauseToggle_def toggle_to_await_paused[OF assms] toggle_after_await_def
      call_done_open)



text \<open>A click and, at once, the settling of the promise: the two events together do what
  \<open>handlePlayPauseToggle\<close> does.\<close>

lemma toggle_in_two_events:
  assumes "toggle_to_await s = Inr (s1, Some (c, k))"
  shows "react PlayPauseToggle s = Inr (s1\<lparr> awaiting := awaiting s1 @ [(c, k)] \<rparr>)"
    and "react (ToggleAwaited (length (awaiting s1)) (Fulfilled ()))
           (s1\<lparr> awaiting := awaiting s1 @ [(c, k)] \<rparr>)
         = Inr (toggle_after_await k (s1\<lparr> audio := call_done c k (audio s1) \<rparr>))"
    and "handlePlayPauseToggle s
         = Inr (toggle_after_await k (s1\<lparr> audio := call_done c k (audio s1) \<rparr>))"
  using assms
  by (simp_all add: handlePlayPauseToggle_def toggle_after_await_def split: context_call.splits)

lemma toggle_to_await_cases:
  assumes "toggle_to_await s = Inr (s1, k)"
  obtains
    (await) "s1 = s\<lparr> shouldAutoplay := False \<rparr>"
  | (play) "playAudioForCurrentPage (s\<lparr> shouldAutoplay := False \<rparr>) = Inr s1" "k = None"
proof (cases "playbackStatus s")
  case stopped
  then have "playAudioForCurrentPage (s\<lparr> shouldAutoplay := False \<rparr>) = Inr s1 \<and> k = None"
    using assms by (auto simp: toggle_to_await_stopped split: sum.splits)
  then show ?thesis using play by blast
next
  case playing
  then have "s1 = s\<lparr> shouldAutoplay := False \<rparr>"
    using assms
    by (cases "audioContextRef s") (auto simp: toggle_to_await_def Let_def split: if_splits)
  then show ?thesis by (rule await)
next
  case paused
  then have "s1 = s\<lparr> shouldAutoplay := False \<rparr>"
    using assms
    by (cases "audioContextRef s") (auto simp: toggle_to_await_def Let_def split: if_splits)
  then show ?thesis by (rule await)
qed

lemma toggle_to_await_session_inv:
  assumes inv: "session_inv s" and t: "toggle_to_await s = Inr (s1, k)"
  shows "session_inv s1"
proof -
  have "session_inv (s\<lparr> shouldAutoplay := False \<rparr>) = session_inv s"
    by (rule session_inv_frame) simp_all
  then have i: "session_inv (s\<lparr> shouldAutoplay := False \<rparr>)" using inv by simp
  from t show ?thesis
  proof (cases rule: toggle_to_await_cases)
    case await
    then show ?thesis using i by simp
  next
    case play
    from i play(1) show ?thesis by (rule play_session_inv)
  qed
qed

lemma react_toggle:
  assumes "react PlayPauseToggle s = Inr s2"
  obtains s1 k where "toggle_to_await s = Inr (s1, k)"
    "s2 = s1\<lparr> awaiting := awaiting s1 @ (case k of None \<Rightarrow> [] | Some c \<Rightarrow> [c]) \<rparr>"
  using assms by (auto split: sum.splits)

lemma react_toggle_session_inv:
  assumes inv: "session_inv s" and t: "react PlayPauseToggle s = Inr s2"
  shows "session_inv s2"
proof -
  from t obtain s1 k where s1: "toggle_to_await s = Inr (s1, k)"
    "s2 = s1\<lparr> awaiting := awaiting s1 @ (case k of None \<Rightarrow> [] | Some c \<Rightarrow> [c]) \<rparr>"
    by (rule react_toggle)
  have "session_inv s2 = session_inv s1"
    unfolding s1(2) by (rule session_inv_frame) simp_all
  then show ?thesis using toggle_to_await_session_inv[OF inv s1(1)] by simp
qed

lemma call_done_session_inv:
  assumes inv: "session_inv s" and t: "react (ContextCallDone i) s = Inr s2"
  shows "session_inv s2"
proof (cases "i < length (awaiting s)")
  case False
  then show ?thesis using inv t by simp
next
  case True
  obtain c k where ck: "awaiting s ! i = (c, k)" by (cases "awaiting s ! i")
  then have "s2 = s\<lparr> audio := call_done c k (audio s) \<rparr>" using t True by simp
  then show ?thesis using session_inv_call_done[OF inv] by simp
qed

lemma toggle_awaited_session_inv:
  assumes inv: "session_inv s" and t: "react (ToggleAwaited i r) s = Inr s2"
  shows "session_inv s2"
proof (cases "i < length (awaiting s)")
  case False
  then show ?thesis using inv t by simp
next
  case True
  obtain c k where ck: "awaiting s ! i = (c, k)" by (cases "awaiting s ! i")
  let ?s1 = "s\<lparr> awaiting := take i (awaiting s) @ drop (Suc i) (awaiting s) \<rparr>"
  have "session_inv ?s1 = session_inv s" by (rule session_inv_frame) simp_all
  then have inv1: "session_inv ?s1" using inv by simp
  have inv2: "session_inv (toggle_after_await k (?s1\<lparr> audio := call_done c k (audio ?s1) \<rparr>))"
    using session_inv_status[OF session_inv_call_done[OF inv1, of c k]]
    by (cases k) (simp_all add: toggle_after_await_def)
  show ?thesis
  proof (cases r)
    case (Fulfilled u)
    then have "s2 = toggle_after_await k (?s1\<lparr> audio := call_done c k (audio ?s1) \<rparr>)"
      using t True ck by (simp add: Let_def)
    then show ?thesis using inv2 by simp
  next
    case Rejected
    then have "s2 = ?s1" using t True ck by (simp add: Let_def)
    then show ?thesis using inv1 by simp
  qed
qed

lemma next_session_inv:
  assumes inv: "session_inv s" and t: "handleNextPage s = Inr s2"
  shows "session_inv s2"
proof (cases "int (currentPageIndex s) < int (length (storyPages s)) - 1")
  case False
  with t inv show ?thesis by (simp add: handleNextPage_def)
next
  case True
  obtain s1 where s1: "stopAudio s = Inr s1" using stopAudio_Inr by blast
  have "s2 = s1\<lparr> currentPageIndex := currentPageIndex s1 + 1, shouldAutoplay := True \<rparr>"
    using t True s1 by (simp add: handleNextPage_def)
  then have "session_inv s2 = session_inv s1"
    by (intro session_inv_frame) simp_all
  then show ?thesis
    using stopAudio_session_inv[OF s1 inv] by simp
qed

lemma prev_session_inv:
  assumes inv: "session_inv s" and t: "handlePrevPage s = Inr s2"
  shows "session_inv s2"
proof (cases "currentPageIndex s > 0")
  case False
  with t inv show ?thesis by (simp add: handlePrevPage_def)
next
  case True
  obtain s1 where s1: "stopAudio s = Inr s1" using stopAudio_Inr by blast
  have "s2 = s1\<lparr> currentPageIndex := currentPageIndex s1 - 1, shouldAutoplay := False \<rparr>"
    using t True s1 by (simp add: handlePrevPage_def)
  then have "session_inv s2 = session_inv s1"
    by (intro session_inv_frame) simp_all
  then show ?thesis
    using stopAudio_session_inv[OF s1 inv] by simp
qed

lemma effect_session_inv:
  assumes inv: "session_inv s" and t: "autoplay_effect s = Inr s2"
  shows "session_inv s2"
proof (cases "shouldAutoplay s \<and> currentPageIndex s < length (storyPages s)
    \<and> audioBuffer (storyPages s ! currentPageIndex s) \<noteq> None")
  case False
  with t inv show ?thesis
    by (auto simp: autoplay_effect_def split: if_splits)
next
  case True
  then obtain b where b: "audioBuffer (storyPages s ! currentPageIndex s) = Some b" by auto
  from play_session[OF inv _ b] True obtain s1 where
    s1: "playAudioForCurrentPage s = Inr s1" "session_inv s1" by blast
  have "s2 = s1\<lparr> shouldAutoplay := False \<rparr>"
    using t True b s1(1) by (simp add: autoplay_effect_def)
  then have "session_inv s2 = session_inv s1"
    by (intro session_inv_frame) simp_all
  then show ?thesis using s1(2) by simp
qed

lemma commit_session_inv:
  assumes inv: "session_inv s" and t: "commit s0 s = Inr s2"
  shows "session_inv s2"
  using assms effect_session_inv[OF inv, of s2]
  by (auto simp: commit_def render_def split: if_splits)

lemma ended_session_inv:
  assumes inv: "session_inv s" and en: "enabled (SourceEnded a) s"
    and t: "react (SourceEnded a) s = Inr s2"
  shows "session_inv s2"
proof -
  let ?s1 = "s\<lparr> audio := update_source a (\<lambda>n. n\<lparr> ended := True \<rparr>) (audio s) \<rparr>"
  have 1: "contexts_allocated (audio ?s1)"
    using inv by (simp add: session_inv_def contexts_allocated_def update_source_def)
  have l: "\<And>x. live (audio ?s1) x \<Longrightarrow> live (audio s) x"
    by (auto simp: live_def update_source_def split: if_splits)
  have 2: "owns_live_sources ?s1"
    using inv l by (auto simp: session_inv_def owns_live_sources_def update_source_def)
  have 3: "refs_paired ?s1"
    using inv by (auto simp: session_inv_def refs_paired_def update_source_def split: option.splits)
  have inv1: "session_inv ?s1" using 1 2 3 by (simp add: session_inv_def)
  show ?thesis
  proof (cases "onended (sources (audio s) a)")
    case None
    with t inv1 show ?thesis by simp
  next
    case (Some h)
    with t have "run_ended_handler h ?s1 = Inr s2" by simp
    then show ?thesis
      using inv1 stopAudio_session_inv[of ?s1 s2]
      by (cases h) (auto simp: run_ended_handler_def split: if_splits)
  qed
qed

subsection \<open>The pipeline keeps its bookkeeping\<close>

declare image_part.simps [simp del] audio_part.simps [simp del]

lemma setStoryPages_updatePage:
  assumes "i < length (storyPages s)"
  shows "setStoryPages (updatePage i u) s =
     Inr (s\<lparr> storyPages := (storyPages s)[i := spread (storyPages s ! i) u] \<rparr>)"
  using assms by (simp add: setStoryPages_def updatePage_def)

lemma prefetch_same_controller:
  shows "same_controller (image_part i s) s" and "same_controller (audio_part i s) s"
proof (induction i s and i s rule: image_part_audio_part.induct)
  case (1 i s)
  then show ?case
    by (subst image_part.simps)
       (auto simp: same_controller_def setStoryPages_def updatePage_def split: pages_array.splits)
next
  case (2 i s)
  then show ?case
    by (subst audio_part.simps)
       (auto simp: same_controller_def setStoryPages_def updatePage_def split: pages_array.splits)
qed


lemma precedes_irrefl: "\<not> precedes r r"
  by (simp add: precedes_def)

lemma precedes_Image_Audio: "precedes r (i, Image) \<Longrightarrow> precedes r (i, Audio)"
  by (auto simp: precedes_def)

lemma precedes_Audio_Suc: "precedes r (i, Audio) \<Longrightarrow> precedes r (Suc i, Image)"
  by (auto simp: precedes_def)

lemma image_request_inv:
  assumes base: "pipeline_base s" and i: "i < length (pages s)"
    and before: "\<forall>r\<in>set (requests s). precedes r (i, Image)"
  shows "prefetch_inv (s\<lparr> storyPages := (storyPages s)[i := spread (storyPages s ! i)
                (no_updates\<lparr> p_isImageLoading := Some True \<rparr>)],
            requests := requests s @ [(i, Image)], pc := AwaitImage i \<rparr>)"
proof -
  have len: "length (storyPages s) = length (pages s)"
    using base by (simp add: pipeline_base_def arrays_aligned_def)
  have 1: "arrays_aligned (s\<lparr> storyPages := (storyPages s)[i := spread (storyPages s ! i)
                (no_updates\<lparr> p_isImageLoading := Some True \<rparr>)],
            requests := requests s @ [(i, Image)], pc := AwaitImage i \<rparr>)"
    using base by (simp add: pipeline_base_def arrays_aligned_def)
  have 2: "sorted_wrt precedes (requests s @ [(i, Image)])"
    using base before by (simp add: pipeline_base_def sorted_wrt_append)
  have 3: "unrequested_untouched (s\<lparr> storyPages := (storyPages s)[i := spread (storyPages s ! i)
                (no_updates\<lparr> p_isImageLoading := Some True \<rparr>)],
            requests := requests s @ [(i, Image)], pc := AwaitImage i \<rparr>)"
    using base len i
    by (auto simp: pipeline_base_def unrequested_untouched_def nth_list_update
        spread_def spread_key_def no_updates_def)
  have 4: "waits_for_last_request (s\<lparr> storyPages := (storyPages s)[i := spread (storyPages s ! i)
                (no_updates\<lparr> p_isImageLoading := Some True \<rparr>)],
            requests := requests s @ [(i, Image)], pc := AwaitImage i \<rparr>)"
    using i by (simp add: waits_for_last_request_def)
  show ?thesis using 1 2 3 4 by (simp add: prefetch_inv_def)
qed

lemma audio_request_inv:
  assumes base: "pipeline_base s" and i: "i < length (pages s)"
    and before: "\<forall>r\<in>set (requests s). precedes r (i, Audio)"
  shows "prefetch_inv (s\<lparr> storyPages := (storyPages s)[i := spread (storyPages s ! i)
                (no_updates\<lparr> p_isAudioLoading := Some True \<rparr>)],
            requests := requests s @ [(i, Audio)], pc := AwaitAudio i \<rparr>)"
proof -
  have len: "length (storyPages s) = length (pages s)"
    using base by (simp add: pipeline_base_def arrays_aligned_def)
  have notin: "(i, Audio) \<notin> set (requests s)"
    using before precedes_irrefl by blast
  have none: "audioBuffer (storyPages s ! i) = None"
    using base i notin by (simp add: pipeline_base_def unrequested_untouched_def)
  have 1: "arrays_aligned (s\<lparr> storyPages := (storyPages s)[i := spread (storyPages s ! i)
                (no_updates\<lparr> p_isAudioLoading := Some True \<rparr>)],
            requests := requests s @ [(i, Audio)], pc := AwaitAudio i \<rparr>)"
    using base by (simp add: pipeline_base_def arrays_aligned_def)
  have 2: "sorted_wrt precedes (requests s @ [(i, Audio)])"
    using base before by (simp add: pipeline_base_def sorted_wrt_append)
  have 3: "unrequested_untouched (s\<lparr> storyPages := (storyPages s)[i := spread (storyPages s ! i)
                (no_updates\<lparr> p_isAudioLoading := Some True \<rparr>)],
            requests := requests s @ [(i, Audio)], pc := AwaitAudio i \<rparr>)"
    using base len i
    by (auto simp: pipeline_base_def unrequested_untouched_def nth_list_update
        spread_def spread_key_def no_updates_def)
  have 4: "waits_for_last_request (s\<lparr> storyPages := (storyPages s)[i := spread (storyPages s ! i)
                (no_updates\<lparr> p_isAudioLoading := Some True \<rparr>)],
            requests := requests s @ [(i, Audio)], pc := AwaitAudio i \<rparr>)"
    using i len none
    by (simp add: waits_for_last_request_def spread_def spread_key_def no_updates_def)
  show ?thesis using 1 2 3 4 by (simp add: prefetch_inv_def)
qed

lemma returned_inv:
  assumes "pipeline_base s"
  shows "prefetch_inv (s\<lparr> pc := Returned \<rparr>)"
  using assms
  by (simp add: prefetch_inv_def pipeline_base_def arrays_aligned_def unrequested_untouched_def
      waits_for_last_request_def)


lemma image_part_done:
  assumes "\<not> i < length (pages s)"
  shows "image_part i s = s\<lparr> pc := Returned \<rparr>"
  using assms by (subst image_part.simps) simp

lemma image_part_request:
  assumes "i < length (pages s)" "arrays_aligned s"
    "imagePrompt (pages s ! i) \<noteq> []" "\<not> truthy (imageUrl (pages s ! i))"
  shows "image_part i s =
     s\<lparr> storyPages := (storyPages s)[i := spread (storyPages s ! i)
                (no_updates\<lparr> p_isImageLoading := Some True \<rparr>)],
        requests := requests s @ [(i, Image)], pc := AwaitImage i \<rparr>"
  using assms
  by (subst image_part.simps)
     (simp add: arrays_aligned_def setStoryPages_updatePage initial_page_def)

lemma image_part_skip:
  assumes "i < length (pages s)" "arrays_aligned s"
    "imagePrompt (pages s ! i) = [] \<or> truthy (imageUrl (pages s ! i))"
  shows "image_part i s = audio_part i s"
  using assms
  by (subst image_part.simps) (auto simp: arrays_aligned_def initial_page_def)

lemma audio_part_request:
  assumes "i < length (pages s)" "arrays_aligned s" "text' (pages s ! i) \<noteq> []"
  shows "audio_part i s =
     s\<lparr> storyPages := (storyPages s)[i := spread (storyPages s ! i)
                (no_updates\<lparr> p_isAudioLoading := Some True \<rparr>)],
        requests := requests s @ [(i, Audio)], pc := AwaitAudio i \<rparr>"
  using assms
  by (subst audio_part.simps)
     (simp add: arrays_aligned_def setStoryPages_updatePage initial_page_def)

lemma audio_part_skip:
  assumes "text' (pages s ! i) = []"
  shows "audio_part i s = image_part (Suc i) s"
  using assms by (subst audio_part.simps) simp

lemma prefetch_part_inv:
  shows "pipeline_base s \<Longrightarrow> \<forall>r\<in>set (requests s). precedes r (i, Image)
      \<Longrightarrow> prefetch_inv (image_part i s)"
    and "pipeline_base s \<Longrightarrow> i < length (pages s)
      \<Longrightarrow> \<forall>r\<in>set (requests s). precedes r (i, Audio) \<Longrightarrow> prefetch_inv (audio_part i s)"
proof (induction i s and i s rule: image_part_audio_part.induct)
  case (1 i s)
  have al: "arrays_aligned s" using "1.prems"(1) by (simp add: pipeline_base_def)
  show ?case
  proof (cases "i < length (pages s)")
    case False
    then show ?thesis using "1.prems"(1) by (simp add: image_part_done returned_inv)
  next
    case True
    have later: "\<forall>r\<in>set (requests s). precedes r (i, Audio)"
      using "1.prems"(2) precedes_Image_Audio by blast
    show ?thesis
    proof (cases "imagePrompt (pages s ! i) = []")
      case empty: True
      have "prefetch_inv (audio_part i s)"
        using "1.IH"(2) empty "1.prems"(1) True later by simp
      then show ?thesis using image_part_skip[OF True al] empty by simp
    next
      case prompt: False
      have cl: "i < length (closure_storyPages s)"
        using al True by (simp add: arrays_aligned_def)
      show ?thesis
      proof (cases "truthy (imageUrl (pages s ! i))")
        case False
        then show ?thesis
          using image_part_request[OF True al prompt] image_request_inv[OF "1.prems"(1) True "1.prems"(2)]
          by simp
      next
        case url: True
        then have "\<not> \<not> truthy (imageUrl (closure_storyPages s ! i))"
          using al True by (simp add: arrays_aligned_def initial_page_def)
        then have "prefetch_inv (audio_part i s)"
          using "1.IH"(1) prompt cl "1.prems"(1) True later by simp
        then show ?thesis using image_part_skip[OF True al] url by simp
      qed
    qed
  qed
next
  case (2 i s)
  have al: "arrays_aligned s" using "2.prems"(1) by (simp add: pipeline_base_def)
  have cl: "i < length (closure_storyPages s)"
    using al "2.prems"(2) by (simp add: arrays_aligned_def)
  have none: "audioBuffer (closure_storyPages s ! i) = None"
    using al "2.prems"(2) by (simp add: arrays_aligned_def initial_page_def)
  show ?case
  proof (cases "text' (pages s ! i) = []")
    case True
    have "\<forall>r\<in>set (requests s). precedes r (Suc i, Image)"
      using "2.prems"(3) precedes_Audio_Suc by blast
    then have "prefetch_inv (image_part (Suc i) s)"
      using "2.IH"(2) True "2.prems"(1) by simp
    then show ?thesis using audio_part_skip[OF True] by simp
  next
    case False
    then show ?thesis
      using audio_part_request[OF "2.prems"(2) al False]
        audio_request_inv[OF "2.prems"(1) "2.prems"(2) "2.prems"(3)] by simp
  qed
qed


lemma sorted_wrt_last:
  assumes "sorted_wrt P xs" "xs \<noteq> []" "r \<in> set xs"
  shows "r = last xs \<or> P r (last xs)"
proof -
  have "xs = butlast xs @ [last xs]" using assms(2) by simp
  then have "sorted_wrt P (butlast xs @ [last xs])" "r \<in> set (butlast xs @ [last xs])"
    using assms(1,3) by simp_all
  then show ?thesis by (auto simp: sorted_wrt_append)
qed

lemma image_settled_inv:
  assumes inv: "prefetch_inv s"
  shows "prefetch_inv (image_settled r s)"
proof (cases "pc s")
  case (AwaitImage i)
  have w: "i < length (pages s)" "requests s \<noteq> []" "last (requests s) = (i, Image)"
    using inv AwaitImage by (simp_all add: prefetch_inv_def waits_for_last_request_def)
  have al: "arrays_aligned s" and so: "sorted_wrt precedes (requests s)"
    and un: "unrequested_untouched s"
    using inv by (simp_all add: prefetch_inv_def)
  have len: "i < length (storyPages s)" using al w(1) by (simp add: arrays_aligned_def)
  have mem: "(i, Image) \<in> set (requests s)" using w(2,3) last_in_set by metis
  define u where "u = (case r of
      Fulfilled url \<Rightarrow> no_updates\<lparr> p_imageUrl := Some (Some url), p_isImageLoading := Some False \<rparr>
    | Rejected \<Rightarrow> no_updates\<lparr> p_isImageLoading := Some False, p_imageError := Some True \<rparr>)"
  define s1 where "s1 = s\<lparr> storyPages := (storyPages s)[i := spread (storyPages s ! i) u] \<rparr>"
  have eq: "image_settled r s = audio_part i s1"
    using AwaitImage len by (simp add: image_settled_def setStoryPages_updatePage u_def s1_def)
  have keep: "audioBuffer (spread p u) = audioBuffer p \<and> audioData (spread p u) = audioData p
      \<and> isAudioLoading (spread p u) = isAudioLoading p \<and> audioError (spread p u) = audioError p" for p
    by (cases r) (simp_all add: u_def spread_def spread_key_def no_updates_def)
  have un1: "unrequested_untouched s1"
    using un mem len keep
    by (auto simp: unrequested_untouched_def s1_def nth_list_update)
  have base: "pipeline_base s1"
    using al so un1 by (simp add: pipeline_base_def arrays_aligned_def s1_def)
  have before: "\<forall>r\<in>set (requests s1). precedes r (i, Audio)"
  proof
    fix q assume "q \<in> set (requests s1)"
    then have "q \<in> set (requests s)" by (simp add: s1_def)
    from sorted_wrt_last[OF so w(2) this] show "precedes q (i, Audio)"
      using w(3) precedes_Image_Audio by (auto simp: precedes_def)
  qed
  have "i < length (pages s1)" using w(1) by (simp add: s1_def)
  from prefetch_part_inv(2)[OF base this before] show ?thesis using eq by simp
qed (use inv in \<open>simp_all add: image_settled_def\<close>)

lemma audio_settled_inv:
  assumes inv: "prefetch_inv s"
  shows "prefetch_inv (audio_settled r s)"
proof (cases "pc s")
  case (AwaitAudio i)
  have w: "i < length (pages s)" "requests s \<noteq> []" "last (requests s) = (i, Audio)"
    using inv AwaitAudio by (simp_all add: prefetch_inv_def waits_for_last_request_def)
  have al: "arrays_aligned s" and so: "sorted_wrt precedes (requests s)"
    and un: "unrequested_untouched s"
    using inv by (simp_all add: prefetch_inv_def)
  have len: "i < length (storyPages s)" using al w(1) by (simp add: arrays_aligned_def)
  have mem: "(i, Audio) \<in> set (requests s)" using w(2,3) last_in_set by metis
  define u where "u = (case r of
      Fulfilled (data, buf) \<Rightarrow>
        no_updates\<lparr> p_audioData := Some (Some data), p_audioBuffer := Some (Some buf),
                    p_isAudioLoading := Some False \<rparr>
    | Rejected \<Rightarrow> no_updates\<lparr> p_isAudioLoading := Some False, p_audioError := Some True \<rparr>)"
  define s1 where "s1 = s\<lparr> storyPages := (storyPages s)[i := spread (storyPages s ! i) u] \<rparr>"
  have eq: "audio_settled r s = image_part (Suc i) s1"
    using AwaitAudio len by (simp add: audio_settled_def setStoryPages_updatePage u_def s1_def)
  have keep: "imageUrl (spread p u) = imageUrl p
      \<and> isImageLoading (spread p u) = isImageLoading p \<and> imageError (spread p u) = imageError p" for p
    by (cases r) (auto simp: u_def spread_def spread_key_def no_updates_def split: prod.splits)
  have un1: "unrequested_untouched s1"
    using un mem len keep
    by (auto simp: unrequested_untouched_def s1_def nth_list_update)
  have base: "pipeline_base s1"
    using al so un1 by (simp add: pipeline_base_def arrays_aligned_def s1_def)
  have before: "\<forall>r\<in>set (requests s1). precedes r (Suc i, Image)"
  proof
    fix q assume "q \<in> set (requests s1)"
    then have "q \<in> set (requests s)" by (simp add: s1_def)
    from sorted_wrt_last[OF so w(2) this] show "precedes q (Suc i, Image)"
      using w(3) by (auto simp: precedes_def)
  qed
  from prefetch_part_inv(1)[OF base before] show ?thesis using eq by simp
qed (use inv in \<open>simp_all add: audio_settled_def\<close>)

lemma settled_same_controller:
  shows "same_controller (image_settled r s) s" and "same_controller (audio_settled q s) s"
proof -
  have refl: "same_controller s s" by (simp add: same_controller_def)
  have upd: "same_controller (x\<lparr> storyPages := ps \<rparr>) x" for x ps
    by (simp add: same_controller_def)
  have fl: "same_controller (x\<lparr> pc := e \<rparr>) x" for x e
    by (simp add: same_controller_def)
  have tr: "same_controller a b \<Longrightarrow> same_controller b c \<Longrightarrow> same_controller a c" for a b c
    by (simp add: same_controller_def)
  show "same_controller (image_settled r s) s"
    using refl fl tr[OF prefetch_same_controller(2) upd]
    by (auto simp: image_settled_def setStoryPages_def split: prefetch_pc.splits pages_array.splits sum.splits)
  show "same_controller (audio_settled q s) s"
    using refl fl tr[OF prefetch_same_controller(1) upd]
    by (auto simp: audio_settled_def setStoryPages_def split: prefetch_pc.splits pages_array.splits sum.splits)
qed


lemma same_pipeline_trans: "same_pipeline a b \<Longrightarrow> same_pipeline b c \<Longrightarrow> same_pipeline a c"
  by (simp add: same_pipeline_def)

lemma prefetch_inv_frame:
  assumes "same_pipeline s1 s"
  shows "prefetch_inv s1 = prefetch_inv s"
  using assms
  by (simp add: same_pipeline_def prefetch_inv_def arrays_aligned_def unrequested_untouched_def
      waits_for_last_request_def cong: prefetch_pc.case_cong)

lemma session_inv_same_controller:
  assumes "same_controller s1 s"
  shows "session_inv s1 = session_inv s"
  using assms by (intro session_inv_frame) (simp_all add: same_controller_def)

lemma play_same_pipeline:
  assumes "playAudioForCurrentPage s = Inr s2"
  shows "same_pipeline s2 s \<and> currentPageIndex s2 = currentPageIndex s
    \<and> shouldAutoplay s2 = shouldAutoplay s"
proof (cases "currentPageIndex s < length (storyPages s)")
  case False
  with assms show ?thesis by (simp add: playAudioForCurrentPage_def)
next
  case True
  show ?thesis
  proof (cases "audioBuffer (storyPages s ! currentPageIndex s)")
    case None
    with True assms show ?thesis by (simp add: play_no_buffer same_pipeline_def)
  next
    case (Some b)
    obtain s1 where s1: "stopAudio s = Inr s1" using stopAudio_Inr by blast
    show ?thesis
      using assms play_result[OF True Some s1] stopAudio_fields[OF s1]
      by (auto simp: same_pipeline_def)
  qed
qed

lemma toggle_to_await_same_pipeline:
  assumes "toggle_to_await s = Inr (s1, k)"
  shows "same_pipeline s1 s \<and> currentPageIndex s1 = currentPageIndex s"
  using assms
proof (cases rule: toggle_to_await_cases)
  case await
  then show ?thesis by (simp add: same_pipeline_def)
next
  case play
  from play_same_pipeline[OF play(1)] show ?thesis by (simp add: same_pipeline_def)
qed

lemma toggle_same_pipeline:
  assumes "react PlayPauseToggle s = Inr s2"
  shows "same_pipeline s2 s \<and> currentPageIndex s2 = currentPageIndex s"
proof -
  from assms obtain s1 k where s1: "toggle_to_await s = Inr (s1, k)"
    "s2 = s1\<lparr> awaiting := awaiting s1 @ (case k of None \<Rightarrow> [] | Some c \<Rightarrow> [c]) \<rparr>"
    by (rule react_toggle)
  show ?thesis
    using toggle_to_await_same_pipeline[OF s1(1)] by (simp add: s1(2) same_pipeline_def)
qed

lemma call_done_same_pipeline:
  assumes "react (ContextCallDone i) s = Inr s2"
  shows "same_pipeline s2 s \<and> currentPageIndex s2 = currentPageIndex s"
  using assms
  by (cases "awaiting s ! i") (auto simp: same_pipeline_def split: if_splits)

lemma toggle_awaited_same_pipeline:
  assumes "react (ToggleAwaited i r) s = Inr s2"
  shows "same_pipeline s2 s \<and> currentPageIndex s2 = currentPageIndex s"
proof (cases "i < length (awaiting s)")
  case False
  then show ?thesis using assms by (simp add: same_pipeline_def)
next
  case True
  obtain c k where ck: "awaiting s ! i = (c, k)" by (cases "awaiting s ! i")
  show ?thesis
    using assms True ck
    by (cases r; cases k) (auto simp: Let_def toggle_after_await_def same_pipeline_def)
qed

lemma next_same_pipeline:
  assumes "handleNextPage s = Inr s2"
  shows "same_pipeline s2 s"
proof (cases "int (currentPageIndex s) < int (length (storyPages s)) - 1")
  case False
  with assms show ?thesis by (simp add: handleNextPage_def same_pipeline_def)
next
  case True
  obtain s1 where s1: "stopAudio s = Inr s1" using stopAudio_Inr by blast
  show ?thesis
    using assms True s1 stopAudio_fields[OF s1]
    by (auto simp: handleNextPage_def same_pipeline_def)
qed

lemma prev_same_pipeline:
  assumes "handlePrevPage s = Inr s2"
  shows "same_pipeline s2 s"
proof (cases "currentPageIndex s > 0")
  case False
  with assms show ?thesis by (simp add: handlePrevPage_def same_pipeline_def)
next
  case True
  obtain s1 where s1: "stopAudio s = Inr s1" using stopAudio_Inr by blast
  show ?thesis
    using assms True s1 stopAudio_fields[OF s1]
    by (auto simp: handlePrevPage_def same_pipeline_def)
qed

lemma ended_same_pipeline:
  assumes "react (SourceEnded a) s = Inr s2"
  shows "same_pipeline s2 s \<and> currentPageIndex s2 = currentPageIndex s"
proof -
  let ?s1 = "s\<lparr> audio := update_source a (\<lambda>n. n\<lparr> ended := True \<rparr>) (audio s) \<rparr>"
  show ?thesis
  proof (cases "onended (sources (audio s) a)")
    case None
    with assms show ?thesis by (auto simp: same_pipeline_def)
  next
    case (Some h)
    with assms have r: "run_ended_handler h ?s1 = Inr s2" by simp
    show ?thesis
    proof (cases "stopAudio ?s1 = Inr s2")
      case True
      from stopAudio_fields[OF True] show ?thesis by (simp add: same_pipeline_def)
    next
      case False
      with r have "s2 = ?s1"
        by (cases h) (auto simp: run_ended_handler_def split: if_splits)
      then show ?thesis by (simp add: same_pipeline_def)
    qed
  qed
qed

lemma effect_same_pipeline:
  assumes "autoplay_effect s = Inr s2"
  shows "same_pipeline s2 s \<and> currentPageIndex s2 = currentPageIndex s"
proof (cases "shouldAutoplay s \<and> currentPageIndex s < length (storyPages s)
    \<and> audioBuffer (storyPages s ! currentPageIndex s) \<noteq> None")
  case False
  with assms show ?thesis
    by (auto simp: autoplay_effect_def same_pipeline_def split: if_splits)
next
  case True
  then obtain b where b: "audioBuffer (storyPages s ! currentPageIndex s) = Some b" by auto
  obtain s0 where s0: "stopAudio s = Inr s0" using stopAudio_Inr by blast
  from play_result[OF _ b s0] True obtain s1 where s1: "playAudioForCurrentPage s = Inr s1"
    by blast
  have "s2 = s1\<lparr> shouldAutoplay := False \<rparr>"
    using assms True b s1 by (simp add: autoplay_effect_def)
  then show ?thesis using play_same_pipeline[OF s1] by (simp add: same_pipeline_def)
qed

lemma commit_same_pipeline:
  assumes "commit s0 s = Inr s2"
  shows "same_pipeline s2 s \<and> currentPageIndex s2 = currentPageIndex s
    \<and> currentPageIndex s < length (storyPages s)"
proof -
  have r: "currentPageIndex s < length (storyPages s)"
    using assms by (auto simp: commit_def render_def split: if_splits)
  then have "s2 = s \<or> autoplay_effect s = Inr s2"
    using assms by (auto simp: commit_def render_def split: if_splits)
  then show ?thesis
    using r effect_same_pipeline[of s s2] by (auto simp: same_pipeline_def)
qed

lemma autoplay_effect_again:
  assumes "autoplay_effect s = Inr s1"
  shows "autoplay_effect s1 = Inr s1"
proof (cases "shouldAutoplay s1")
  case False
  then show ?thesis by (simp add: autoplay_effect_def)
next
  case True
  have "s1 = s"
  proof (rule ccontr)
    assume "s1 \<noteq> s"
    then have "\<exists>x. s1 = x\<lparr> shouldAutoplay := False \<rparr>"
      using assms by (auto simp: autoplay_effect_def split: if_splits option.splits sum.splits)
    then show False using True by auto
  qed
  then show ?thesis using assms by simp
qed

lemma rerender_after_effect:
  assumes "commit s0 s = Inr s1"
  shows "commit s s1 = Inr s1"
proof -
  have idx: "currentPageIndex s1 < length (storyPages s1)"
    using commit_same_pipeline[OF assms] by (simp add: same_pipeline_def)
  have "s1 = s \<or> autoplay_effect s = Inr s1"
    using assms by (auto simp: commit_def render_def split: if_splits)
  then have "autoplay_deps s1 = autoplay_deps s \<or> autoplay_effect s1 = Inr s1"
    using autoplay_effect_again by blast
  then show ?thesis using idx by (auto simp: commit_def render_def)
qed

subsection \<open>Every reachable state satisfies the invariants\<close>

lemma react_inv:
  assumes inv: "session_inv s" "prefetch_inv s" and en: "enabled e s" and r: "react e s = Inr s1"
  shows "session_inv s1 \<and> prefetch_inv s1"
proof (cases e)
  case NextPage
  with r have h: "handleNextPage s = Inr s1" by simp
  show ?thesis
    using next_session_inv[OF inv(1) h] prefetch_inv_frame[OF next_same_pipeline[OF h]] inv(2)
    by simp
next
  case PrevPage
  with r have h: "handlePrevPage s = Inr s1" by simp
  show ?thesis
    using prev_session_inv[OF inv(1) h] prefetch_inv_frame[OF prev_same_pipeline[OF h]] inv(2)
    by simp
next
  case PlayPauseToggle
  with r have h: "react PlayPauseToggle s = Inr s1" by simp
  show ?thesis
    using react_toggle_session_inv[OF inv(1) h] toggle_same_pipeline[OF h]
      prefetch_inv_frame[of s1 s] inv(2)
    by simp
next
  case (ContextCallDone i)
  with r have h: "react (ContextCallDone i) s = Inr s1" by simp
  show ?thesis
    using call_done_session_inv[OF inv(1) h] call_done_same_pipeline[OF h]
      prefetch_inv_frame[of s1 s] inv(2)
    by simp
next
  case (ToggleAwaited i x)
  with r have h: "react (ToggleAwaited i x) s = Inr s1" by simp
  show ?thesis
    using toggle_awaited_session_inv[OF inv(1) h] toggle_awaited_same_pipeline[OF h]
      prefetch_inv_frame[of s1 s] inv(2)
    by simp
next
  case (ImageSettled x)
  with r have "s1 = image_settled x s" by simp
  then show ?thesis
    using image_settled_inv[OF inv(2)] session_inv_same_controller[OF settled_same_controller(1)] inv(1)
    by simp
next
  case (AudioSettled x)
  with r have "s1 = audio_settled x s" by simp
  then show ?thesis
    using audio_settled_inv[OF inv(2)] session_inv_same_controller[OF settled_same_controller(2)] inv(1)
    by simp
next
  case (SourceEnded a)
  show ?thesis
    using ended_session_inv[OF inv(1) en[unfolded SourceEnded] r[unfolded SourceEnded]]
      ended_same_pipeline[OF r[unfolded SourceEnded]] prefetch_inv_frame[of s1 s] inv(2)
    by simp
qed

lemma commit_inv:
  assumes inv: "session_inv s" "prefetch_inv s" and c: "commit s0 s = Inr s2"
  shows "session_inv s2 \<and> prefetch_inv s2 \<and> currentPageIndex s2 < length (storyPages s2)"
  using commit_session_inv[OF inv(1) c] commit_same_pipeline[OF c] prefetch_inv_frame[of s2 s] inv(2)
  by (simp add: same_pipeline_def)

lemma initial_state_inv:
  "session_inv (initial_state quirk ps)" "pipeline_base (initial_state quirk ps)"
  by (simp_all add: initial_state_def session_inv_def contexts_allocated_def owns_live_sources_def
      refs_paired_def no_audio_def pipeline_base_def arrays_aligned_def
      unrequested_untouched_def initial_page_def)

lemma mount_inv:
  assumes "mount quirk ps = Inr s"
  shows "session_inv s \<and> prefetch_inv s \<and> currentPageIndex s < length (storyPages s)"
proof -
  let ?s0 = "initial_state quirk ps"
  have r: "render ?s0 = Inr ?s0" and e: "autoplay_effect (image_part 0 ?s0) = Inr s"
    using assms by (auto simp: mount_def render_def split: if_splits)
  have p: "prefetch_inv (image_part 0 ?s0)"
    using prefetch_part_inv(1)[OF initial_state_inv(2)[of quirk ps], of 0]
    by (simp add: initial_state_def)
  have c: "session_inv (image_part 0 ?s0)"
    using session_inv_same_controller[OF prefetch_same_controller(1)] initial_state_inv(1) by simp
  have "\<not> shouldAutoplay (image_part 0 ?s0)"
    using prefetch_same_controller(1)[of 0 ?s0] by (simp add: same_controller_def initial_state_def)
  then have "s = image_part 0 ?s0"
    using e by (simp add: autoplay_effect_def)
  moreover have "currentPageIndex (image_part 0 ?s0) < length (storyPages (image_part 0 ?s0))"
    using r p prefetch_same_controller(1)[of 0 ?s0]
    by (auto simp: render_def same_controller_def prefetch_inv_def arrays_aligned_def initial_state_def
        split: if_splits)
  ultimately show ?thesis using p c by simp
qed

lemma reachable_inv:
  assumes "reachable s"
  shows "session_inv s \<and> prefetch_inv s \<and> currentPageIndex s < length (storyPages s)"
  using assms
proof (induction rule: reachable.induct)
  case (mounted quirk ps s)
  then show ?case by (rule mount_inv)
next
  case (step s e s1)
  from step.hyps(3) obtain s' where s': "react e s = Inr s'" "commit s s' = Inr s1"
    by (auto simp: dispatch_def split: sum.splits)
  from react_inv[OF _ _ step.hyps(2) s'(1)] step.IH have "session_inv s' \<and> prefetch_inv s'" by simp
  then show ?case using commit_inv[OF _ _ s'(2)] by simp
qed

lemma after_events_reachable:
  assumes "reachable s" "after_events es s = Some s1"
  shows "reachable s1"
  using assms
proof (induction es arbitrary: s)
  case Nil
  then show ?case by simp
next
  case (Cons e es)
  then show ?case
    by (auto split: if_splits sum.splits intro: reachable.step)
qed

lemma story_run_reachable:
  assumes "story_run quirk ps es = Some s"
  shows "reachable s"
proof -
  obtain s0 where "mount quirk ps = Inr s0" "after_events es s0 = Some s"
    using assms by (auto simp: story_run_def split: sum.splits)
  then show ?thesis
    using reachable.mounted after_events_reachable by blast
qed

lemma stopAudio_live_sessions:
  assumes "stopAudio s = Inr s1" "session_inv s"
  shows "live_sessions (audio s1) = []"
  using stopAudio_no_live[OF assms(1)] assms(2) stopAudio_n_sources[OF assms(1)]
  by (simp add: live_sessions_def filter_empty_conv session_inv_def)

lemma stopAudio_when_stopped:
  assumes "session_inv s" "playbackStatus s = stopped"
  shows "stopAudio s = Inr s"
  using session_stoppedD[OF assms] assms(2)
  by (simp add: stopAudio_def)

subsection \<open>Requests and error flags only accumulate\<close>

lemma pipeline_advanced_refl: "pipeline_advanced s s"
  by (simp add: pipeline_advanced_def)

lemma pipeline_advanced_requests:
  "pipeline_advanced s s1 \<Longrightarrow> \<exists>new. requests s1 = requests s @ new"
  by (metis pipeline_advanced_def append_take_drop_id)

lemma pipeline_advanced_trans:
  assumes "pipeline_advanced a b" "pipeline_advanced b c"
  shows "pipeline_advanced a c"
proof -
  obtain x y where "requests b = requests a @ x" "requests c = requests b @ y"
    using assms pipeline_advanced_requests by blast
  then have "take (length (requests a)) (requests c) = requests a"
    by simp
  then show ?thesis using assms by (auto simp: pipeline_advanced_def)
qed

lemma pipeline_advanced_same:
  assumes "same_pipeline s1 s"
  shows "pipeline_advanced s s1"
  using assms by (simp add: pipeline_advanced_def same_pipeline_def)

lemma pipeline_advanced_update:
  assumes "imageError p \<longrightarrow> imageError (spread p u)" "audioError p \<longrightarrow> audioError (spread p u)"
    "p = storyPages s ! i"
  shows "pipeline_advanced s (s\<lparr> storyPages := (storyPages s)[i := spread p u] \<rparr>)"
proof -
  have "(imageError (storyPages s ! j) \<longrightarrow> imageError ((storyPages s)[i := spread p u] ! j))
      \<and> (audioError (storyPages s ! j) \<longrightarrow> audioError ((storyPages s)[i := spread p u] ! j))"
    if "j < length (storyPages s)" for j
    using that assms by (cases "j = i") simp_all
  then show ?thesis by (simp add: pipeline_advanced_def)
qed

lemma pipeline_advanced_fields:
  "pipeline_advanced s (s\<lparr> pc := x \<rparr>)"
  "pipeline_advanced s (s\<lparr> requests := requests s @ new, pc := x \<rparr>)"
  by (simp_all add: pipeline_advanced_def)

lemma setStoryPages_advanced:
  assumes "setStoryPages (updatePage i u) s = Inr s1"
    "\<And>p. imageError p \<longrightarrow> imageError (spread p u)" "\<And>p. audioError p \<longrightarrow> audioError (spread p u)"
  shows "pipeline_advanced s s1"
proof (cases "i < length (storyPages s)")
  case True
  then have "s1 = s\<lparr> storyPages := (storyPages s)[i := spread (storyPages s ! i) u] \<rparr>"
    using assms(1) by (simp add: setStoryPages_updatePage)
  then show ?thesis using pipeline_advanced_update[OF assms(2,3)] by simp
next
  case False
  then show ?thesis using assms(1) by (simp add: setStoryPages_def updatePage_def)
qed

lemma prefetch_part_advanced:
  shows "pipeline_advanced s (image_part i s)" and "pipeline_advanced s (audio_part i s)"
proof (induction i s and i s rule: image_part_audio_part.induct)
  case (1 i s)
  let ?u = "no_updates\<lparr> p_isImageLoading := Some True \<rparr>"
  have k: "\<And>p. imageError p \<longrightarrow> imageError (spread p ?u)" "\<And>p. audioError p \<longrightarrow> audioError (spread p ?u)"
    by (simp_all add: spread_def spread_key_def no_updates_def)
  show ?case
  proof (cases "setStoryPages (updatePage i ?u) s")
    case (Inl e)
    then show ?thesis
      using 1 by (subst image_part.simps) (auto simp: pipeline_advanced_fields pipeline_advanced_refl)
  next
    case (Inr s1)
    have "pipeline_advanced s (s1\<lparr> requests := requests s1 @ [(i, Image)], pc := AwaitImage i \<rparr>)"
      using pipeline_advanced_trans[OF setStoryPages_advanced[OF Inr k] pipeline_advanced_fields(2)] .
    then show ?thesis
      using 1 Inr by (subst image_part.simps) (auto simp: pipeline_advanced_fields pipeline_advanced_refl)
  qed
next
  case (2 i s)
  let ?u = "no_updates\<lparr> p_isAudioLoading := Some True \<rparr>"
  have k: "\<And>p. imageError p \<longrightarrow> imageError (spread p ?u)" "\<And>p. audioError p \<longrightarrow> audioError (spread p ?u)"
    by (simp_all add: spread_def spread_key_def no_updates_def)
  show ?case
  proof (cases "setStoryPages (updatePage i ?u) s")
    case (Inl e)
    then show ?thesis
      using 2 by (subst audio_part.simps) (auto simp: pipeline_advanced_fields pipeline_advanced_refl)
  next
    case (Inr s1)
    have "pipeline_advanced s (s1\<lparr> requests := requests s1 @ [(i, Audio)], pc := AwaitAudio i \<rparr>)"
      using pipeline_advanced_trans[OF setStoryPages_advanced[OF Inr k] pipeline_advanced_fields(2)] .
    then show ?thesis
      using 2 Inr by (subst audio_part.simps) (auto simp: pipeline_advanced_fields pipeline_advanced_refl)
  qed
qed


lemma image_settled_advanced: "pipeline_advanced s (image_settled r s)"
proof (cases "pc s")
  case (AwaitImage i)
  define u where "u = (case r of
      Fulfilled url \<Rightarrow> no_updates\<lparr> p_imageUrl := Some (Some url), p_isImageLoading := Some False \<rparr>
    | Rejected \<Rightarrow> no_updates\<lparr> p_isImageLoading := Some False, p_imageError := Some True \<rparr>)"
  have k: "\<And>p. imageError p \<longrightarrow> imageError (spread p u)" "\<And>p. audioError p \<longrightarrow> audioError (spread p u)"
    by (cases r; simp add: u_def spread_def spread_key_def no_updates_def)+
  show ?thesis
  proof (cases "setStoryPages (updatePage i u) s")
    case (Inl e)
    then show ?thesis
      using AwaitImage by (simp add: image_settled_def u_def pipeline_advanced_fields)
  next
    case (Inr s1)
    then have "image_settled r s = audio_part i s1"
      using AwaitImage by (simp add: image_settled_def u_def)
    then show ?thesis
      using pipeline_advanced_trans[OF setStoryPages_advanced[OF Inr k] prefetch_part_advanced(2)]
      by simp
  qed
qed (simp_all add: image_settled_def pipeline_advanced_refl)

lemma audio_settled_advanced: "pipeline_advanced s (audio_settled r s)"
proof (cases "pc s")
  case (AwaitAudio i)
  define u where "u = (case r of
      Fulfilled (data, buf) \<Rightarrow>
        no_updates\<lparr> p_audioData := Some (Some data), p_audioBuffer := Some (Some buf),
                    p_isAudioLoading := Some False \<rparr>
    | Rejected \<Rightarrow> no_updates\<lparr> p_isAudioLoading := Some False, p_audioError := Some True \<rparr>)"
  have k: "\<And>p. imageError p \<longrightarrow> imageError (spread p u)" "\<And>p. audioError p \<longrightarrow> audioError (spread p u)"
    by (cases r; auto simp: u_def spread_def spread_key_def no_updates_def split: prod.splits)+
  show ?thesis
  proof (cases "setStoryPages (updatePage i u) s")
    case (Inl e)
    then show ?thesis
      using AwaitAudio by (simp add: audio_settled_def u_def pipeline_advanced_fields)
  next
    case (Inr s1)
    then have "audio_settled r s = image_part (Suc i) s1"
      using AwaitAudio by (simp add: audio_settled_def u_def)
    then show ?thesis
      using pipeline_advanced_trans[OF setStoryPages_advanced[OF Inr k] prefetch_part_advanced(1)]
      by simp
  qed
qed (simp_all add: audio_settled_def pipeline_advanced_refl)

lemma react_advanced:
  assumes "react e s = Inr s1"
  shows "pipeline_advanced s s1"
proof (cases e)
  case NextPage
  with assms show ?thesis
    using next_same_pipeline pipeline_advanced_same by simp
next
  case PrevPage
  with assms show ?thesis
    using prev_same_pipeline pipeline_advanced_same by simp
next
  case PlayPauseToggle
  with assms show ?thesis
    using toggle_same_pipeline pipeline_advanced_same by simp
next
  case (ContextCallDone i)
  with assms show ?thesis
    using call_done_same_pipeline pipeline_advanced_same by blast
next
  case (ToggleAwaited i x)
  with assms show ?thesis
    using toggle_awaited_same_pipeline pipeline_advanced_same by blast
next
  case (ImageSettled x)
  with assms show ?thesis
    using image_settled_advanced by auto
next
  case (AudioSettled x)
  with assms show ?thesis
    using audio_settled_advanced by auto
next
  case (SourceEnded a)
  with assms show ?thesis
    using ended_same_pipeline pipeline_advanced_same by blast
qed

lemma dispatch_advanced:
  assumes "dispatch e s = Inr s1"
  shows "pipeline_advanced s s1"
proof -
  obtain s' where s': "react e s = Inr s'" "commit s s' = Inr s1"
    using assms by (auto simp: dispatch_def split: sum.splits)
  have "pipeline_advanced s' s1"
    using commit_same_pipeline[OF s'(2)] pipeline_advanced_same by blast
  then show ?thesis
    using pipeline_advanced_trans[OF react_advanced[OF s'(1)]] by simp
qed

lemma sorted_precedes_distinct:
  assumes "sorted_wrt precedes xs"
  shows "distinct xs"
  using assms by (induction xs) (auto simp: precedes_irrefl)

lemma error_was_requested:
  assumes "prefetch_inv s" "j < length (pages s)"
  shows "(imageError (storyPages s ! j) \<longrightarrow> (j, Image) \<in> set (requests s))
    \<and> (audioError (storyPages s ! j) \<longrightarrow> (j, Audio) \<in> set (requests s))"
  using assms by (auto simp: prefetch_inv_def unrequested_untouched_def)

subsection \<open>What one event does to the pipeline\<close>

lemma prefetch_part_earlier:
  shows "j < i \<Longrightarrow> storyPages (image_part i s) ! j = storyPages s ! j"
    and "j < i \<Longrightarrow> storyPages (audio_part i s) ! j = storyPages s ! j"
proof (induction i s and i s rule: image_part_audio_part.induct)
  case (1 i s)
  then show ?case
    by (subst image_part.simps)
       (auto simp: setStoryPages_def updatePage_def split: pages_array.splits if_splits)
next
  case (2 i s)
  then show ?case
    by (subst audio_part.simps)
       (auto simp: setStoryPages_def updatePage_def split: pages_array.splits if_splits)
qed

lemma prefetch_part_requests:
  shows "requests (image_part i s) = requests s
      \<or> (\<exists>x. requests (image_part i s) = requests s @ [x])"
    and "requests (audio_part i s) = requests s
      \<or> (\<exists>x. requests (audio_part i s) = requests s @ [x])"
proof (induction i s and i s rule: image_part_audio_part.induct)
  case (1 i s)
  then show ?case
    by (subst (1 2) image_part.simps)
       (auto simp: setStoryPages_def updatePage_def split: pages_array.splits if_splits)
next
  case (2 i s)
  then show ?case
    by (subst (1 2) audio_part.simps)
       (auto simp: setStoryPages_def updatePage_def split: pages_array.splits if_splits)
qed


lemma effect_returns:
  assumes "currentPageIndex s < length (storyPages s)"
  shows "\<exists>s1. autoplay_effect s = Inr s1"
  using assms
  by (auto simp: autoplay_effect_def split: option.splits sum.splits)

lemma commit_returns:
  assumes "currentPageIndex s < length (storyPages s)"
  shows "\<exists>s1. commit s0 s = Inr s1"
  using assms effect_returns[OF assms] by (simp add: commit_def render_def)

lemma play_returns:
  assumes "currentPageIndex s < length (storyPages s)"
  shows "\<exists>s1. playAudioForCurrentPage s = Inr s1"
proof (cases "audioBuffer (storyPages s ! currentPageIndex s)")
  case None
  then show ?thesis using assms by (simp add: play_no_buffer)
next
  case (Some b)
  obtain s0 where "stopAudio s = Inr s0" using stopAudio_Inr by blast
  from play_result[OF assms Some this] show ?thesis by blast
qed

lemma toggle_to_await_returns:
  assumes "currentPageIndex s < length (storyPages s)"
  shows "\<exists>s1 k. toggle_to_await s = Inr (s1, k)"
proof (cases "playbackStatus s")
  case playing
  then show ?thesis
    by (cases "audioContextRef s") (simp_all add: toggle_to_await_def Let_def)
next
  case paused
  then show ?thesis
    by (cases "audioContextRef s") (simp_all add: toggle_to_await_def Let_def)
next
  case stopped
  have "\<exists>s1. playAudioForCurrentPage (s\<lparr> shouldAutoplay := False \<rparr>) = Inr s1"
    by (rule play_returns) (use assms in simp)
  then show ?thesis using toggle_to_await_stopped[OF stopped] by auto
qed

lemma toggle_returns:
  assumes "currentPageIndex s < length (storyPages s)"
  shows "\<exists>s1. react PlayPauseToggle s = Inr s1"
  using toggle_to_await_returns[OF assms] by auto

lemma user_event_returns:
  assumes r: "reachable s" and e: "e = NextPage \<or> e = PrevPage \<or> e = PlayPauseToggle"
  shows "\<exists>s1. dispatch e s = Inr s1 \<and> same_pipeline s1 s"
proof -
  have inv: "session_inv s" and idx: "currentPageIndex s < length (storyPages s)"
    using reachable_inv[OF r] by simp_all
  have "\<exists>s'. react e s = Inr s' \<and> same_pipeline s' s \<and> currentPageIndex s' < length (storyPages s')"
  proof -
    consider "e = NextPage" | "e = PrevPage" | "e = PlayPauseToggle" using e by blast
    then show ?thesis
    proof cases
      case 1
      obtain s0 where s0: "stopAudio s = Inr s0" using stopAudio_Inr by blast
      have "\<exists>s'. handleNextPage s = Inr s'"
        using s0 by (simp add: handleNextPage_def)
      then obtain s' where s': "handleNextPage s = Inr s'" by blast
      have "currentPageIndex s' < length (storyPages s')"
        using s' s0 stopAudio_fields[OF s0] idx
        by (auto simp: handleNextPage_def split: if_splits)
      then show ?thesis using 1 s' next_same_pipeline[OF s'] by simp
    next
      case 2
      obtain s0 where s0: "stopAudio s = Inr s0" using stopAudio_Inr by blast
      have "\<exists>s'. handlePrevPage s = Inr s'"
        using s0 by (simp add: handlePrevPage_def)
      then obtain s' where s': "handlePrevPage s = Inr s'" by blast
      have "currentPageIndex s' < length (storyPages s')"
        using s' s0 stopAudio_fields[OF s0] idx
        by (auto simp: handlePrevPage_def split: if_splits)
      then show ?thesis using 2 s' prev_same_pipeline[OF s'] by simp
    next
      case 3
      obtain s' where s': "react PlayPauseToggle s = Inr s'"
        using toggle_returns[OF idx] by blast
      have "currentPageIndex s' < length (storyPages s')"
        using toggle_same_pipeline[OF s'] idx by (simp add: same_pipeline_def)
      then show ?thesis using 3 s' toggle_same_pipeline[OF s'] by simp
    qed
  qed
  then obtain s' where s': "react e s = Inr s'" "same_pipeline s' s"
    "currentPageIndex s' < length (storyPages s')" by blast
  obtain s1 where s1: "commit s s' = Inr s1" using commit_returns[OF s'(3)] by blast
  have "same_pipeline s1 s"
    using commit_same_pipeline[OF s1] s'(2) same_pipeline_trans by blast
  then show ?thesis using s'(1) s1 by (simp add: dispatch_def)
qed

lemma dispatch_requests:
  assumes "dispatch e s = Inr s1"
  shows "requests s1 = requests s \<or> (\<exists>x. requests s1 = requests s @ [x])"
proof -
  obtain s' where s': "react e s = Inr s'" "commit s s' = Inr s1"
    using assms by (auto simp: dispatch_def split: sum.splits)
  have c: "requests s1 = requests s'"
    using commit_same_pipeline[OF s'(2)] by (simp add: same_pipeline_def)
  have "requests s' = requests s \<or> (\<exists>x. requests s' = requests s @ [x])"
  proof (cases e)
    case NextPage
    then show ?thesis using s'(1) next_same_pipeline[of s s'] by (simp add: same_pipeline_def)
  next
    case PrevPage
    then show ?thesis using s'(1) prev_same_pipeline[of s s'] by (simp add: same_pipeline_def)
  next
    case PlayPauseToggle
    then show ?thesis using s'(1) toggle_same_pipeline[of s s'] by (simp add: same_pipeline_def)
  next
    case (ContextCallDone i)
    then show ?thesis using s'(1) call_done_same_pipeline[of i s s'] by (simp add: same_pipeline_def)
  next
    case (ToggleAwaited i x)
    then show ?thesis using s'(1) toggle_awaited_same_pipeline[of i x s s'] by (simp add: same_pipeline_def)
  next
    case (SourceEnded a)
    then show ?thesis using s'(1) ended_same_pipeline[of a s s'] by (simp add: same_pipeline_def)
  next
    case (ImageSettled x)
    then have eq: "s' = image_settled x s" using s'(1) by simp
    show ?thesis
    proof (cases "pc s")
      case (AwaitImage i)
      define u where "u = (case x of
          Fulfilled url \<Rightarrow> no_updates\<lparr> p_imageUrl := Some (Some url), p_isImageLoading := Some False \<rparr>
        | Rejected \<Rightarrow> no_updates\<lparr> p_isImageLoading := Some False, p_imageError := Some True \<rparr>)"
      show ?thesis
      proof (cases "setStoryPages (updatePage i u) s")
        case (Inl err)
        then show ?thesis using AwaitImage by (simp add: eq image_settled_def u_def)
      next
        case (Inr s0)
        then have "requests s0 = requests s"
          by (auto simp: setStoryPages_def split: pages_array.splits)
        moreover have "s' = audio_part i s0"
          using AwaitImage Inr by (simp add: eq image_settled_def u_def)
        ultimately show ?thesis using prefetch_part_requests(2)[of i s0] by simp
      qed
    qed (simp_all add: eq image_settled_def)
  next
    case (AudioSettled x)
    then have eq: "s' = audio_settled x s" using s'(1) by simp
    show ?thesis
    proof (cases "pc s")
      case (AwaitAudio i)
      define u where "u = (case x of
          Fulfilled (data, buf) \<Rightarrow>
            no_updates\<lparr> p_audioData := Some (Some data), p_audioBuffer := Some (Some buf),
                        p_isAudioLoading := Some False \<rparr>
        | Rejected \<Rightarrow> no_updates\<lparr> p_isAudioLoading := Some False, p_audioError := Some True \<rparr>)"
      show ?thesis
      proof (cases "setStoryPages (updatePage i u) s")
        case (Inl err)
        then show ?thesis using AwaitAudio by (simp add: eq audio_settled_def u_def)
      next
        case (Inr s0)
        then have "requests s0 = requests s"
          by (auto simp: setStoryPages_def split: pages_array.splits)
        moreover have "s' = image_part (Suc i) s0"
          using AwaitAudio Inr by (simp add: eq audio_settled_def u_def)
        ultimately show ?thesis using prefetch_part_requests(1)[of "Suc i" s0] by simp
      qed
    qed (simp_all add: eq audio_settled_def)
  qed
  then show ?thesis using c by simp
qed


lemma pending_is_last:
  assumes inv: "prefetch_inv s" and pend: "requests s \<noteq> []" "last (requests s) = (i, k)"
    and r: "r \<in> set (requests s)"
  shows "r = (i, k) \<or> fst r < i \<or> (fst r = i \<and> snd r = Image \<and> k = Audio)"
proof -
  have "sorted_wrt precedes (requests s)" using inv by (simp add: prefetch_inv_def)
  from sorted_wrt_last[OF this pend(1) r] show ?thesis
    using pend(2) by (auto simp: precedes_def)
qed

subsection \<open>When the autoplay effect plays\<close>

lemma disarmed_commit:
  assumes "\<not> shouldAutoplay s1" "currentPageIndex s1 < length (storyPages s1)"
  shows "commit s s1 = Inr s1"
  using assms by (simp add: commit_def render_def autoplay_effect_def)

lemma settled_length:
  "length (storyPages (image_settled r s)) = length (storyPages s)"
  "length (storyPages (audio_settled q s)) = length (storyPages s)"
  using image_settled_advanced[of s r] audio_settled_advanced[of s q]
  by (simp_all add: pipeline_advanced_def)

lemma disarmed_settle_no_play:
  assumes "\<not> shouldAutoplay s" "currentPageIndex s < length (storyPages s)"
  shows "dispatch (ImageSettled r) s = Inr (image_settled r s)"
    and "dispatch (AudioSettled q) s = Inr (audio_settled q s)"
proof -
  have "\<not> shouldAutoplay (image_settled r s)" "currentPageIndex (image_settled r s) = currentPageIndex s"
    "\<not> shouldAutoplay (audio_settled q s)" "currentPageIndex (audio_settled q s) = currentPageIndex s"
    using settled_same_controller(1)[of r s] settled_same_controller(2)[of q s] assms(1)
    by (simp_all add: same_controller_def)
  then show "dispatch (ImageSettled r) s = Inr (image_settled r s)"
    and "dispatch (AudioSettled q) s = Inr (audio_settled q s)"
    using assms(2) by (simp_all add: dispatch_def disarmed_commit settled_length)
qed

lemma armed_play:
  assumes inv: "session_inv s" and armed: "shouldAutoplay s"
    and idx: "currentPageIndex s < length (storyPages s)"
    and buf: "audioBuffer (storyPages s ! currentPageIndex s) = Some b"
  shows "\<exists>s1. autoplay_effect s = Inr s1
     \<and> n_sources (audio s1) = Suc (n_sources (audio s))
     \<and> n_contexts (audio s1) = Suc (n_contexts (audio s))
     \<and> live_sessions (audio s1) = [n_sources (audio s)]
     \<and> audioSourceRef s1 = Some (n_sources (audio s))
     \<and> buffer (sources (audio s1) (n_sources (audio s))) = Some b
     \<and> playbackStatus s1 = playing \<and> \<not> shouldAutoplay s1
     \<and> currentPageIndex s1 = currentPageIndex s \<and> storyPages s1 = storyPages s"
proof -
  from play_session[OF inv idx buf] obtain s2 where
    s2: "playAudioForCurrentPage s = Inr s2"
      "live_sessions (audio s2) = [n_sources (audio s)]"
      "audioSourceRef s2 = Some (n_sources (audio s))"
      "buffer (sources (audio s2) (n_sources (audio s))) = Some b"
      "playbackStatus s2 = playing"
      "n_sources (audio s2) = Suc (n_sources (audio s))"
      "n_contexts (audio s2) = Suc (n_contexts (audio s))"
      "currentPageIndex s2 = currentPageIndex s" "storyPages s2 = storyPages s"
    by auto
  have "autoplay_effect s = Inr (s2\<lparr> shouldAutoplay := False \<rparr>)"
    using armed idx buf s2(1) by (simp add: autoplay_effect_def)
  then show ?thesis using s2 by simp
qed

lemma armed_audio_arrives:
  assumes r: "reachable s" and armed: "shouldAutoplay s"
    and pend: "pc s = AwaitAudio (currentPageIndex s)"
  shows "\<exists>s1. dispatch (AudioSettled (Fulfilled (d, b))) s = Inr s1
     \<and> n_sources (audio s1) = Suc (n_sources (audio s))
     \<and> n_contexts (audio s1) = Suc (n_contexts (audio s))
     \<and> live_sessions (audio s1) = [n_sources (audio s)]
     \<and> audioSourceRef s1 = Some (n_sources (audio s))
     \<and> buffer (sources (audio s1) (n_sources (audio s))) = Some b
     \<and> playbackStatus s1 = playing \<and> \<not> shouldAutoplay s1
     \<and> currentPageIndex s1 = currentPageIndex s"
proof -
  define cur where "cur = currentPageIndex s"
  have inv: "session_inv s" "prefetch_inv s" and idx: "cur < length (storyPages s)"
    using reachable_inv[OF r] by (simp_all add: cur_def)
  have none: "audioBuffer (storyPages s ! cur) = None"
    using inv(2) pend by (simp add: prefetch_inv_def waits_for_last_request_def cur_def)
  define u where "u = no_updates\<lparr> p_audioData := Some (Some d), p_audioBuffer := Some (Some b),
                    p_isAudioLoading := Some False \<rparr>"
  define s0 where "s0 = s\<lparr> storyPages := (storyPages s)[cur := spread (storyPages s ! cur) u] \<rparr>"
  define s' where "s' = audio_settled (Fulfilled (d, b)) s"
  have eq: "s' = image_part (Suc cur) s0"
    using pend idx by (simp add: s'_def audio_settled_def setStoryPages_updatePage u_def s0_def cur_def)
  have sc: "same_controller s' s" unfolding s'_def by (rule settled_same_controller(2))
  have len: "length (storyPages s') = length (storyPages s)"
    unfolding s'_def by (rule settled_length(2))
  have "storyPages s' ! cur = storyPages s0 ! cur"
    unfolding eq by (rule prefetch_part_earlier(1)) simp
  then have got: "audioBuffer (storyPages s' ! cur) = Some b"
    using idx by (simp add: s0_def u_def spread_def spread_key_def no_updates_def)
  have c: "currentPageIndex s' = cur" "shouldAutoplay s'"
    using sc armed by (simp_all add: same_controller_def cur_def)
  have "autoplay_deps s' \<noteq> autoplay_deps s"
    using got none c idx len by (simp add: autoplay_deps_def cur_def)
  then have co: "commit s s' = autoplay_effect s'"
    using c idx len by (simp add: commit_def render_def)
  have inv': "session_inv s'"
    using session_inv_same_controller[OF sc] inv(1) by simp
  have a: "audio s' = audio s" using sc by (simp add: same_controller_def)
  from armed_play[OF inv' c(2), of b] c(1) idx len got
  obtain s1 where "autoplay_effect s' = Inr s1
     \<and> n_sources (audio s1) = Suc (n_sources (audio s'))
     \<and> n_contexts (audio s1) = Suc (n_contexts (audio s'))
     \<and> live_sessions (audio s1) = [n_sources (audio s')]
     \<and> audioSourceRef s1 = Some (n_sources (audio s'))
     \<and> buffer (sources (audio s1) (n_sources (audio s'))) = Some b
     \<and> playbackStatus s1 = playing \<and> \<not> shouldAutoplay s1
     \<and> currentPageIndex s1 = currentPageIndex s'"
    by auto
  then show ?thesis
    using co a c(1) by (auto simp: dispatch_def s'_def[symmetric] cur_def)
qed

lemma next_reveals_ready_page:
  assumes r: "reachable s" and nxt: "currentPageIndex s + 1 < length (storyPages s)"
    and buf: "audioBuffer (storyPages s ! (currentPageIndex s + 1)) = Some b"
  shows "\<exists>s1. dispatch NextPage s = Inr s1
     \<and> n_sources (audio s1) = Suc (n_sources (audio s))
     \<and> n_contexts (audio s1) = Suc (n_contexts (audio s))
     \<and> live_sessions (audio s1) = [n_sources (audio s)]
     \<and> audioSourceRef s1 = Some (n_sources (audio s))
     \<and> buffer (sources (audio s1) (n_sources (audio s))) = Some b
     \<and> playbackStatus s1 = playing \<and> \<not> shouldAutoplay s1
     \<and> currentPageIndex s1 = currentPageIndex s + 1"
proof -
  have inv: "session_inv s" using reachable_inv[OF r] by simp
  obtain s0 where s0: "stopAudio s = Inr s0" using stopAudio_Inr by blast
  note f = stopAudio_fields[OF s0] stopAudio_n_sources[OF s0] stopAudio_n_contexts[OF s0]
  define s' where "s' = s0\<lparr> currentPageIndex := currentPageIndex s + 1, shouldAutoplay := True \<rparr>"
  have h: "handleNextPage s = Inr s'"
    using nxt s0 f(4) by (simp add: handleNextPage_def s'_def)
  have "session_inv s' = session_inv s0" by (rule session_inv_frame) (simp_all add: s'_def)
  then have inv': "session_inv s'" using stopAudio_session_inv[OF s0 inv] by simp
  have p: "currentPageIndex s' = currentPageIndex s + 1" "shouldAutoplay s'"
    "storyPages s' = storyPages s" "audio s' = audio s0"
    by (simp_all add: s'_def f)
  have "autoplay_deps s' \<noteq> autoplay_deps s"
    by (simp add: autoplay_deps_def p)
  then have co: "commit s s' = autoplay_effect s'"
    using nxt p by (simp add: commit_def render_def)
  from armed_play[OF inv' p(2), of b] nxt buf p
  obtain s1 where "autoplay_effect s' = Inr s1
     \<and> n_sources (audio s1) = Suc (n_sources (audio s'))
     \<and> n_contexts (audio s1) = Suc (n_contexts (audio s'))
     \<and> live_sessions (audio s1) = [n_sources (audio s')]
     \<and> audioSourceRef s1 = Some (n_sources (audio s'))
     \<and> buffer (sources (audio s1) (n_sources (audio s'))) = Some b
     \<and> playbackStatus s1 = playing \<and> \<not> shouldAutoplay s1
     \<and> currentPageIndex s1 = currentPageIndex s'"
    by auto
  then show ?thesis
    using co h p f by (auto simp: dispatch_def)
qed


lemma consumed_stays:
  assumes r: "reachable s" and off: "\<not> shouldAutoplay s"
  shows "(\<forall>q. \<exists>s2. dispatch (AudioSettled q) s = Inr s2 \<and> audio s2 = audio s
            \<and> playbackStatus s2 = playbackStatus s \<and> \<not> shouldAutoplay s2)
    \<and> (\<forall>q. \<exists>s2. dispatch (ImageSettled q) s = Inr s2 \<and> audio s2 = audio s
            \<and> playbackStatus s2 = playbackStatus s \<and> \<not> shouldAutoplay s2)
    \<and> (\<forall>ps. length ps = length (storyPages s) \<longrightarrow>
            commit s (s\<lparr> storyPages := ps \<rparr>) = Inr (s\<lparr> storyPages := ps \<rparr>))"
proof -
  have idx: "currentPageIndex s < length (storyPages s)"
    using reachable_inv[OF r] by simp
  have a: "\<exists>s2. dispatch (AudioSettled q) s = Inr s2 \<and> audio s2 = audio s
            \<and> playbackStatus s2 = playbackStatus s \<and> \<not> shouldAutoplay s2" for q
    using disarmed_settle_no_play(2)[OF off idx, of q] settled_same_controller(2)[of q s] off
    by (simp add: same_controller_def)
  have i: "\<exists>s2. dispatch (ImageSettled q) s = Inr s2 \<and> audio s2 = audio s
            \<and> playbackStatus s2 = playbackStatus s \<and> \<not> shouldAutoplay s2" for q
    using disarmed_settle_no_play(1)[OF off idx, of q] settled_same_controller(1)[of q s] off
    by (simp add: same_controller_def)
  have c: "commit s (s\<lparr> storyPages := ps \<rparr>) = Inr (s\<lparr> storyPages := ps \<rparr>)"
    if "length ps = length (storyPages s)" for ps
    using that idx off by (simp add: disarmed_commit)
  show ?thesis using a i c by blast
qed

subsection \<open>The claims\<close>

text \<open>C9. For a valid index, \<open>updatePage\<close> keeps the length of the array, leaves the
  record at every other index as it was, and in the record at \<open>index\<close> changes the
  fields that \<open>updates\<close> mentions and no others: a field \<open>updates\<close> does not mention
  keeps its previous value (and a mentioned one takes the value given).\<close>

theorem updatePage_frame:
  assumes "index < length prev"
  shows "\<exists>new. updatePage index updates prev = Pages new
     \<and> length new = length prev
     \<and> (\<forall>j. j < length prev \<and> j \<noteq> index \<longrightarrow> new ! j = prev ! j)
     \<and> text' (new ! index) = (case p_text updates of None \<Rightarrow> text' (prev ! index) | Some v \<Rightarrow> v)
     \<and> imagePrompt (new ! index) = (case p_imagePrompt updates of None \<Rightarrow> imagePrompt (prev ! index) | Some v \<Rightarrow> v)
     \<and> imageUrl (new ! index) = (case p_imageUrl updates of None \<Rightarrow> imageUrl (prev ! index) | Some v \<Rightarrow> v)
     \<and> audioData (new ! index) = (case p_audioData updates of None \<Rightarrow> audioData (prev ! index) | Some v \<Rightarrow> v)
     \<and> audioBuffer (new ! index) = (case p_audioBuffer updates of None \<Rightarrow> audioBuffer (prev ! index) | Some v \<Rightarrow> v)
     \<and> isImageLoading (new ! index) = (case p_isImageLoading updates of None \<Rightarrow> isImageLoading (prev ! index) | Some v \<Rightarrow> v)
     \<and> isAudioLoading (new ! index) = (case p_isAudioLoading updates of None \<Rightarrow> isAudioLoading (prev ! index) | Some v \<Rightarrow> v)
     \<and> imageError (new ! index) = (case p_imageError updates of None \<Rightarrow> imageError (prev ! index) | Some v \<Rightarrow> v)
     \<and> audioError (new ! index) = (case p_audioError updates of None \<Rightarrow> audioError (prev ! index) | Some v \<Rightarrow> v)"
  using assms by (simp add: updatePage_def spread_def spread_key_def)

theorem updatePage_frame_witness:
  "(1::nat) < length (map initial_page two_pages)
   \<and> updatePage 1 (no_updates\<lparr> p_isImageLoading := Some True \<rparr>) (map initial_page two_pages)
       = Pages [initial_page (two_pages ! 0), (initial_page (two_pages ! 1))\<lparr> isImageLoading := True \<rparr>]"
  using updatePage_frame [of 1 "map initial_page two_pages" "no_updates\<lparr> p_isImageLoading := Some True \<rparr>"]
  by (simp add: updatePage_def two_pages_def initial_page_def spread_def spread_key_def no_updates_def)

text \<open>C4. \<open>stopAudio\<close> never raises, whatever the state: it returns, the status is then
  \<open>stopped\<close> and both refs are empty, and a second call right after returns the same state
  again. From a state the viewer can reach, no source is live afterwards; and when the
  status was \<open>stopped\<close> already the call changes nothing. A \<^verbatim>\<open>stop()\<close> that raises (on a source
  that already finished, in a browser with that behaviour) is caught inside.\<close>

theorem stopAudio_idempotent:
  "\<exists>s1. stopAudio s = Inr s1 \<and> stopAudio s1 = Inr s1
     \<and> playbackStatus s1 = stopped \<and> audioSourceRef s1 = None \<and> audioContextRef s1 = None
     \<and> (reachable s \<longrightarrow> live_sessions (audio s1) = [])
     \<and> (reachable s \<and> playbackStatus s = stopped \<longrightarrow> s1 = s)"
proof -
  obtain s1 where s1: "stopAudio s = Inr s1" using stopAudio_Inr by blast
  have "stopAudio s1 = Inr s1"
    using s1 by (auto simp: stopAudio_def Let_def)
  moreover have "reachable s \<longrightarrow> live_sessions (audio s1) = []"
    using stopAudio_live_sessions[OF s1] reachable_inv by blast
  moreover have "reachable s \<and> playbackStatus s = stopped \<longrightarrow> s1 = s"
    using stopAudio_when_stopped[of s] s1 reachable_inv by auto
  ultimately show ?thesis
    using s1 stopAudio_fields(1-3)[OF s1] by blast
qed

theorem stopAudio_idempotent_witness:
  "\<exists>s s1. story_run True two_pages
        [ImageSettled (Fulfilled ''u0''), AudioSettled (Fulfilled (''d0'', AudioBuffer 0)),
         PlayPauseToggle] = Some s
     \<and> reachable s \<and> playbackStatus s = playing \<and> live_sessions (audio s) = [0]
     \<and> stopAudio s = Inr s1 \<and> stopAudio s1 = Inr s1 \<and> playbackStatus s1 = stopped
     \<and> live_sessions (audio s1) = []"
proof -
  let ?es = "[ImageSettled (Fulfilled ''u0''), AudioSettled (Fulfilled (''d0'', AudioBuffer 0)),
         PlayPauseToggle]"
  have "case story_run True two_pages ?es of None \<Rightarrow> False
        | Some s \<Rightarrow> playbackStatus s = playing \<and> live_sessions (audio s) = [0]"
    by code_simp
  then obtain s where s: "story_run True two_pages ?es = Some s" "playbackStatus s = playing"
    "live_sessions (audio s) = [0]"
    by (auto split: option.splits)
  have r: "reachable s" using story_run_reachable[OF s(1)] .
  from stopAudio_idempotent[of s] r s show ?thesis by auto
qed


text \<open>C6. When there is a next page, \<open>handleNextPage\<close> stops the audio (whatever the
  status), moves the index forward by one and arms autoplay: its result is the state
  \<open>stopAudio\<close> returns, with the index advanced and \<open>shouldAutoplay\<close> set. When there is a
  previous page, \<open>handlePrevPage\<close> stops the audio, moves the index back by one and leaves
  \<open>shouldAutoplay\<close> false. After either, the status is \<open>stopped\<close>, the refs are empty and
  (from a reachable state) no source is live.\<close>

theorem navigation_moves_one_page:
  "(currentPageIndex s + 1 < length (storyPages s) \<longrightarrow>
      (\<exists>s0. stopAudio s = Inr s0
         \<and> handleNextPage s = Inr (s0\<lparr> currentPageIndex := currentPageIndex s + 1, shouldAutoplay := True \<rparr>)
         \<and> playbackStatus s0 = stopped \<and> audioSourceRef s0 = None \<and> audioContextRef s0 = None
         \<and> (reachable s \<longrightarrow> live_sessions (audio s0) = [])))
   \<and> (0 < currentPageIndex s \<longrightarrow>
      (\<exists>s0. stopAudio s = Inr s0
         \<and> handlePrevPage s = Inr (s0\<lparr> currentPageIndex := currentPageIndex s - 1, shouldAutoplay := False \<rparr>)
         \<and> playbackStatus s0 = stopped \<and> audioSourceRef s0 = None \<and> audioContextRef s0 = None
         \<and> (reachable s \<longrightarrow> live_sessions (audio s0) = [])))"
proof -
  obtain s0 where s0: "stopAudio s = Inr s0" using stopAudio_Inr by blast
  note f = stopAudio_fields[OF s0]
  have l: "reachable s \<longrightarrow> live_sessions (audio s0) = []"
    using stopAudio_live_sessions[OF s0] reachable_inv by blast
  have n: "currentPageIndex s + 1 < length (storyPages s) \<Longrightarrow>
      handleNextPage s = Inr (s0\<lparr> currentPageIndex := currentPageIndex s + 1, shouldAutoplay := True \<rparr>)"
    using s0 f(4) by (simp add: handleNextPage_def)
  have p: "0 < currentPageIndex s \<Longrightarrow>
      handlePrevPage s = Inr (s0\<lparr> currentPageIndex := currentPageIndex s - 1, shouldAutoplay := False \<rparr>)"
    using s0 f(4) by (simp add: handlePrevPage_def)
  show ?thesis using s0 f(1-3) l n p by auto
qed

theorem navigation_moves_one_page_witness:
  "\<exists>s s1 s2. story_run False two_pages
        [ImageSettled (Fulfilled ''u0''), AudioSettled (Fulfilled (''d0'', AudioBuffer 0)),
         PlayPauseToggle] = Some s
     \<and> reachable s \<and> currentPageIndex s = 0 \<and> length (storyPages s) = 2
     \<and> playbackStatus s = playing \<and> live_sessions (audio s) = [0]
     \<and> handleNextPage s = Inr s1
     \<and> currentPageIndex s1 = 1 \<and> shouldAutoplay s1 \<and> playbackStatus s1 = stopped
     \<and> live_sessions (audio s1) = []
     \<and> handlePrevPage s1 = Inr s2
     \<and> currentPageIndex s2 = 0 \<and> \<not> shouldAutoplay s2 \<and> playbackStatus s2 = stopped"
proof -
  let ?es = "[ImageSettled (Fulfilled ''u0''), AudioSettled (Fulfilled (''d0'', AudioBuffer 0)),
         PlayPauseToggle]"
  have "case story_run False two_pages ?es of None \<Rightarrow> False
        | Some s \<Rightarrow> currentPageIndex s = 0 \<and> length (storyPages s) = 2
            \<and> playbackStatus s = playing \<and> live_sessions (audio s) = [0]"
    by code_simp
  then obtain s where s: "story_run False two_pages ?es = Some s" "currentPageIndex s = 0"
    "length (storyPages s) = 2" "playbackStatus s = playing" "live_sessions (audio s) = [0]"
    by (auto split: option.splits)
  have r: "reachable s" using story_run_reachable[OF s(1)] .
  from navigation_moves_one_page[of s] r s obtain s0 where
    s0: "stopAudio s = Inr s0"
      "handleNextPage s = Inr (s0\<lparr> currentPageIndex := currentPageIndex s + 1, shouldAutoplay := True \<rparr>)"
      "playbackStatus s0 = stopped" "live_sessions (audio s0) = []"
    by auto
  let ?s1 = "s0\<lparr> currentPageIndex := currentPageIndex s + 1, shouldAutoplay := True \<rparr>"
  from navigation_moves_one_page[of ?s1] s(2) obtain s3 where
    s3: "stopAudio ?s1 = Inr s3"
      "handlePrevPage ?s1 = Inr (s3\<lparr> currentPageIndex := currentPageIndex ?s1 - 1, shouldAutoplay := False \<rparr>)"
      "playbackStatus s3 = stopped"
    by auto
  show ?thesis
    using s r s0 s3 by auto
qed

text \<open>C10. On the last page \<open>handleNextPage\<close> returns the state it was given, and on the
  first page so does \<open>handlePrevPage\<close>: index, autoplay intent, status, refs and audio
  objects are all as before, so audio that is playing goes on. The render that follows
  runs no effect either.\<close>

theorem navigation_boundary_noop:
  "(currentPageIndex s = length (storyPages s) - 1 \<longrightarrow>
      handleNextPage s = Inr s \<and> (reachable s \<longrightarrow> dispatch NextPage s = Inr s))
   \<and> (currentPageIndex s = 0 \<longrightarrow>
      handlePrevPage s = Inr s \<and> (reachable s \<longrightarrow> dispatch PrevPage s = Inr s))"
proof -
  have c: "reachable s \<Longrightarrow> commit s s = Inr s"
    using reachable_inv[of s] by (simp add: commit_def render_def)
  have n: "handleNextPage s = Inr s" if "currentPageIndex s = length (storyPages s) - 1"
  proof -
    have "\<not> int (currentPageIndex s) < int (length (storyPages s)) - 1"
      using that by arith
    then show ?thesis by (simp add: handleNextPage_def)
  qed
  have p: "currentPageIndex s = 0 \<Longrightarrow> handlePrevPage s = Inr s"
    by (simp add: handlePrevPage_def)
  show ?thesis using c n p by (simp add: dispatch_def)
qed

theorem navigation_boundary_noop_witness:
  "\<exists>s s1. story_run False two_pages
        [ImageSettled (Fulfilled ''u0''), AudioSettled (Fulfilled (''d0'', AudioBuffer 0)),
         PlayPauseToggle] = Some s
     \<and> reachable s \<and> currentPageIndex s = 0 \<and> playbackStatus s = playing
     \<and> live_sessions (audio s) = [0]
     \<and> handlePrevPage s = Inr s \<and> dispatch PrevPage s = Inr s
     \<and> story_run False two_pages
        [NextPage, ImageSettled (Fulfilled ''u0''), AudioSettled (Fulfilled (''d0'', AudioBuffer 0)),
         ImageSettled (Fulfilled ''u1''), AudioSettled (Fulfilled (''d1'', AudioBuffer 1))] = Some s1
     \<and> reachable s1 \<and> currentPageIndex s1 = 1 \<and> length (storyPages s1) = 2
     \<and> playbackStatus s1 = playing \<and> live_sessions (audio s1) = [0]
     \<and> handleNextPage s1 = Inr s1 \<and> dispatch NextPage s1 = Inr s1"
proof -
  let ?es = "[ImageSettled (Fulfilled ''u0''), AudioSettled (Fulfilled (''d0'', AudioBuffer 0)),
         PlayPauseToggle]"
  let ?es1 = "[NextPage, ImageSettled (Fulfilled ''u0''), AudioSettled (Fulfilled (''d0'', AudioBuffer 0)),
         ImageSettled (Fulfilled ''u1''), AudioSettled (Fulfilled (''d1'', AudioBuffer 1))]"
  have "case story_run False two_pages ?es of None \<Rightarrow> False
        | Some s \<Rightarrow> currentPageIndex s = 0 \<and> playbackStatus s = playing \<and> live_sessions (audio s) = [0]"
    by code_simp
  then obtain s where s: "story_run False two_pages ?es = Some s" "currentPageIndex s = 0"
    "playbackStatus s = playing" "live_sessions (audio s) = [0]"
    by (auto split: option.splits)
  have "case story_run False two_pages ?es1 of None \<Rightarrow> False
        | Some s \<Rightarrow> currentPageIndex s = 1 \<and> length (storyPages s) = 2
            \<and> playbackStatus s = playing \<and> live_sessions (audio s) = [0]"
    by code_simp
  then obtain s1 where s1: "story_run False two_pages ?es1 = Some s1" "currentPageIndex s1 = 1"
    "length (storyPages s1) = 2" "playbackStatus s1 = playing" "live_sessions (audio s1) = [0]"
    by (auto split: option.splits)
  have r: "reachable s" "reachable s1"
    using story_run_reachable[OF s(1)] story_run_reachable[OF s1(1)] by simp_all
  show ?thesis
    using navigation_boundary_noop[of s] navigation_boundary_noop[of s1] r s s1 by auto
qed





text \<open>C5. For a page whose audio buffer is there, \<open>playAudioForCurrentPage\<close> followed by
  two toggles (the first pauses, the second resumes) ends with the status \<open>playing\<close>, the
  two refs holding the very objects the play created, the context running again, and no
  object created since the play: the counters, the sources and the contexts are those of
  the state right after the play.\<close>

theorem pause_resume_reuses_session:
  assumes "currentPageIndex s < length (storyPages s)"
    and "audioBuffer (storyPages s ! currentPageIndex s) = Some b"
  shows "\<exists>s1 s2 s3 c a.
       playAudioForCurrentPage s = Inr s1 \<and> playbackStatus s1 = playing
     \<and> audioContextRef s1 = Some c \<and> audioSourceRef s1 = Some a
     \<and> handlePlayPauseToggle s1 = Inr s2 \<and> playbackStatus s2 = paused
     \<and> contexts (audio s2) c = suspended
     \<and> handlePlayPauseToggle s2 = Inr s3 \<and> playbackStatus s3 = playing
     \<and> contexts (audio s3) c = running
     \<and> audioContextRef s3 = Some c \<and> audioSourceRef s3 = Some a
     \<and> n_contexts (audio s3) = n_contexts (audio s1) \<and> n_sources (audio s3) = n_sources (audio s1)
     \<and> sources (audio s3) = sources (audio s1) \<and> contexts (audio s3) = contexts (audio s1)"
proof -
  obtain s0 where s0: "stopAudio s = Inr s0" using stopAudio_Inr by blast
  define s1 where "s1 = s0\<lparr> audio := (audio s0)\<lparr>
              contexts := (contexts (audio s0))(n_contexts (audio s0) := running),
              n_contexts := Suc (n_contexts (audio s0)),
              sources := (sources (audio s0))(n_sources (audio s0) :=
                 \<lparr> buffer = Some b, node_context = n_contexts (audio s0), connected = True,
                   onended = Some StopUnlessSuspended, started = True, stop_called = False,
                   ended = False \<rparr>),
              n_sources := Suc (n_sources (audio s0)) \<rparr>,
           audioContextRef := Some (n_contexts (audio s0)),
           audioSourceRef := Some (n_sources (audio s0)),
           playbackStatus := playing \<rparr>"
  have p: "playAudioForCurrentPage s = Inr s1"
    using play_result[OF assms s0] by (simp add: s1_def)
  define c where "c = n_contexts (audio s0)"
  have f1: "playbackStatus s1 = playing" "audioContextRef s1 = Some c" "contexts (audio s1) c = running"
    by (simp_all add: s1_def c_def)
  define s2 where "s2 = s1\<lparr> shouldAutoplay := False,
      audio := set_context_state c suspended (audio s1), playbackStatus := paused \<rparr>"
  have t1: "handlePlayPauseToggle s1 = Inr s2"
    using toggle_playing[OF f1] by (simp add: s2_def)
  have f2: "playbackStatus s2 = paused" "audioContextRef s2 = Some c" "contexts (audio s2) c = suspended"
    by (simp_all add: s2_def f1 set_context_state_def)
  define s3 where "s3 = s2\<lparr> shouldAutoplay := False,
      audio := set_context_state c running (audio s2), playbackStatus := playing \<rparr>"
  have t2: "handlePlayPauseToggle s2 = Inr s3"
    using toggle_paused[OF f2] by (simp add: s3_def)
  have "contexts (audio s3) = contexts (audio s1)"
    using f1(3) by (auto simp: s3_def s2_def set_context_state_def)
  moreover have "sources (audio s3) = sources (audio s1)"
    "n_contexts (audio s3) = n_contexts (audio s1)" "n_sources (audio s3) = n_sources (audio s1)"
    "audioContextRef s3 = Some c" "audioSourceRef s3 = audioSourceRef s1" "playbackStatus s3 = playing"
    by (simp_all add: s3_def s2_def set_context_state_def f1)
  moreover have "audioSourceRef s1 = Some (n_sources (audio s0))"
    by (simp add: s1_def)
  ultimately show ?thesis
    using p t1 t2 f1 f2 by auto
qed

theorem pause_resume_reuses_session_witness:
  "\<exists>s. story_run False two_pages
        [ImageSettled (Fulfilled ''u0''), AudioSettled (Fulfilled (''d0'', AudioBuffer 0))] = Some s
     \<and> currentPageIndex s < length (storyPages s)
     \<and> audioBuffer (storyPages s ! currentPageIndex s) = Some (AudioBuffer 0)
     \<and> (\<exists>s1 s2 s3 c a.
           playAudioForCurrentPage s = Inr s1 \<and> playbackStatus s1 = playing
         \<and> audioContextRef s1 = Some c \<and> audioSourceRef s1 = Some a
         \<and> handlePlayPauseToggle s1 = Inr s2 \<and> playbackStatus s2 = paused
         \<and> handlePlayPauseToggle s2 = Inr s3 \<and> playbackStatus s3 = playing
         \<and> audioContextRef s3 = Some c \<and> audioSourceRef s3 = Some a
         \<and> n_contexts (audio s3) = n_contexts (audio s1)
         \<and> n_sources (audio s3) = n_sources (audio s1))"
proof -
  let ?es = "[ImageSettled (Fulfilled ''u0''), AudioSettled (Fulfilled (''d0'', AudioBuffer 0))]"
  have "case story_run False two_pages ?es of None \<Rightarrow> False
        | Some s \<Rightarrow> currentPageIndex s < length (storyPages s)
            \<and> audioBuffer (storyPages s ! currentPageIndex s) = Some (AudioBuffer 0)"
    by code_simp
  then obtain s where s: "story_run False two_pages ?es = Some s"
    "currentPageIndex s < length (storyPages s)"
    "audioBuffer (storyPages s ! currentPageIndex s) = Some (AudioBuffer 0)"
    by (auto split: option.splits)
  from pause_resume_reuses_session[OF s(2,3)] s show ?thesis by blast
qed

text \<open>C2. From every reachable state, with pages \<open>i\<close> and \<open>j\<close> whose audio buffers are
  there: playing page \<open>i\<close> and then page \<open>j\<close>, with no \<open>stopAudio\<close> in between, leaves exactly
  one live source, the one \<open>audioSourceRef\<close> holds, and it plays page \<open>j\<close>'s buffer. Each
  play leaves exactly one live source: the second play has disconnected the first
  source's \<open>onended\<close> handler, stopped it and closed its context before it created its own.\<close>

theorem play_exclusive_session:
  assumes r: "reachable s"
    and i: "i < length (storyPages s)" "audioBuffer (storyPages s ! i) = Some a"
    and j: "j < length (storyPages s)" "audioBuffer (storyPages s ! j) = Some b"
  shows "\<exists>s1 s2. playAudioForCurrentPage (s\<lparr> currentPageIndex := i \<rparr>) = Inr s1
     \<and> live_sessions (audio s1) = [n_sources (audio s)]
     \<and> audioSourceRef s1 = Some (n_sources (audio s))
     \<and> audioContextRef s1 = Some (n_contexts (audio s))
     \<and> buffer (sources (audio s1) (n_sources (audio s))) = Some a
     \<and> playAudioForCurrentPage (s1\<lparr> currentPageIndex := j \<rparr>) = Inr s2
     \<and> live_sessions (audio s2) = [Suc (n_sources (audio s))]
     \<and> audioSourceRef s2 = Some (Suc (n_sources (audio s)))
     \<and> audioContextRef s2 = Some (Suc (n_contexts (audio s)))
     \<and> buffer (sources (audio s2) (Suc (n_sources (audio s)))) = Some b
     \<and> playbackStatus s2 = playing
     \<and> onended (sources (audio s2) (n_sources (audio s))) = None
     \<and> stop_called (sources (audio s2) (n_sources (audio s)))
     \<and> contexts (audio s2) (n_contexts (audio s)) = closed"
proof -
  let ?sa = "s\<lparr> currentPageIndex := i \<rparr>"
  have inv: "session_inv s" using reachable_inv[OF r] by simp
  have "session_inv ?sa = session_inv s" by (rule session_inv_frame) simp_all
  then have inva: "session_inv ?sa" using inv by simp
  from play_session[OF inva, of a] i obtain s1 where
    s1: "playAudioForCurrentPage ?sa = Inr s1" "session_inv s1"
      "live_sessions (audio s1) = [n_sources (audio s)]"
      "audioSourceRef s1 = Some (n_sources (audio s))"
      "audioContextRef s1 = Some (n_contexts (audio s))"
      "buffer (sources (audio s1) (n_sources (audio s))) = Some a"
      "contexts (audio s1) (n_contexts (audio s)) = running"
      "n_sources (audio s1) = Suc (n_sources (audio s))"
      "n_contexts (audio s1) = Suc (n_contexts (audio s))"
      "storyPages s1 = storyPages s"
    by auto
  have "n_sources (audio s) \<in> set (live_sessions (audio s1))"
    using s1(3) by simp
  then have live1: "live (audio s1) (n_sources (audio s))"
    by (simp add: live_sessions_def)
  let ?sb = "s1\<lparr> currentPageIndex := j \<rparr>"
  have "session_inv ?sb = session_inv s1" by (rule session_inv_frame) simp_all
  then have invb: "session_inv ?sb" using s1(2) by simp
  from play_session[OF invb, of b] j s1(10) obtain s2 where
    s2: "playAudioForCurrentPage ?sb = Inr s2"
      "live_sessions (audio s2) = [n_sources (audio s1)]"
      "audioSourceRef s2 = Some (n_sources (audio s1))"
      "audioContextRef s2 = Some (n_contexts (audio s1))"
      "buffer (sources (audio s2) (n_sources (audio s1))) = Some b"
      "playbackStatus s2 = playing"
    by auto
  obtain s0 where s0: "stopAudio ?sb = Inr s0" using stopAudio_Inr by blast
  have old_src: "sources (audio s0) (n_sources (audio s)) =
      (sources (audio s1) (n_sources (audio s)))\<lparr> onended := None, stop_called := True \<rparr>"
    using stopAudio_sources[OF s0, of "n_sources (audio s)"] s1(4) live1
    by (simp add: live_def)
  have old_ctx: "contexts (audio s0) (n_contexts (audio s)) = closed"
    using stopAudio_contexts[OF s0, of "n_contexts (audio s)"] s1(5) by simp
  have n0: "n_sources (audio s0) = Suc (n_sources (audio s))"
      "n_contexts (audio s0) = Suc (n_contexts (audio s))"
    using stopAudio_n_sources[OF s0] stopAudio_n_contexts[OF s0] s1(8,9) by simp_all
  have idx: "currentPageIndex ?sb < length (storyPages ?sb)"
      "audioBuffer (storyPages ?sb ! currentPageIndex ?sb) = Some b"
    using j s1(10) by simp_all
  have "onended (sources (audio s2) (n_sources (audio s))) = None
     \<and> stop_called (sources (audio s2) (n_sources (audio s)))
     \<and> contexts (audio s2) (n_contexts (audio s)) = closed"
    using s2(1) play_result[OF idx s0] old_src old_ctx n0 by auto
  then show ?thesis
    using s1 s2 by auto
qed


theorem play_exclusive_session_witness:
  "\<exists>s. story_run False two_pages
        [ImageSettled (Fulfilled ''u0''), AudioSettled (Fulfilled (''d0'', AudioBuffer 0)),
         ImageSettled (Fulfilled ''u1''), AudioSettled (Fulfilled (''d1'', AudioBuffer 1)),
         PlayPauseToggle] = Some s
     \<and> reachable s \<and> length (storyPages s) = 2
     \<and> audioBuffer (storyPages s ! 0) = Some (AudioBuffer 0)
     \<and> audioBuffer (storyPages s ! 1) = Some (AudioBuffer 1)
     \<and> live_sessions (audio s) = [0]
     \<and> (\<exists>s1 s2. playAudioForCurrentPage (s\<lparr> currentPageIndex := 0 \<rparr>) = Inr s1
           \<and> live_sessions (audio s1) = [1]
           \<and> buffer (sources (audio s1) 1) = Some (AudioBuffer 0)
           \<and> playAudioForCurrentPage (s1\<lparr> currentPageIndex := 1 \<rparr>) = Inr s2
           \<and> live_sessions (audio s2) = [2]
           \<and> audioSourceRef s2 = Some 2
           \<and> buffer (sources (audio s2) 2) = Some (AudioBuffer 1)
           \<and> contexts (audio s2) 1 = closed)"
proof -
  let ?es = "[ImageSettled (Fulfilled ''u0''), AudioSettled (Fulfilled (''d0'', AudioBuffer 0)),
         ImageSettled (Fulfilled ''u1''), AudioSettled (Fulfilled (''d1'', AudioBuffer 1)),
         PlayPauseToggle]"
  have "case story_run False two_pages ?es of None \<Rightarrow> False
        | Some s \<Rightarrow> length (storyPages s) = 2
            \<and> audioBuffer (storyPages s ! 0) = Some (AudioBuffer 0)
            \<and> audioBuffer (storyPages s ! 1) = Some (AudioBuffer 1)
            \<and> live_sessions (audio s) = [0]
            \<and> n_sources (audio s) = 1 \<and> n_contexts (audio s) = 1"
    by code_simp
  then obtain s where s: "story_run False two_pages ?es = Some s" "length (storyPages s) = 2"
    "audioBuffer (storyPages s ! 0) = Some (AudioBuffer 0)"
    "audioBuffer (storyPages s ! 1) = Some (AudioBuffer 1)"
    "live_sessions (audio s) = [0]" "n_sources (audio s) = 1" "n_contexts (audio s) = 1"
    by (auto split: option.splits)
  have r: "reachable s" using story_run_reachable[OF s(1)] .
  from play_exclusive_session[OF r, of 0 "AudioBuffer 0" 1 "AudioBuffer 1"] s r
  show ?thesis
    by (auto simp: numeral_2_eq_2)
qed


text \<open>C8. In every reachable state no fetch has been requested twice (the list of
  requests has no duplicate), and an error flag is set only on a page whose fetch of that
  kind was requested. Whatever happens next, the list of requests grows at its end only,
  an error flag that is set stays set, and the new requests never include the asset whose
  error flag is set: a failed fetch is not tried again.\<close>

theorem errors_sticky_one_attempt:
  assumes "reachable s"
  shows "distinct (requests s)
    \<and> (\<forall>j<length (pages s).
          (imageError (storyPages s ! j) \<longrightarrow> (j, Image) \<in> set (requests s))
        \<and> (audioError (storyPages s ! j) \<longrightarrow> (j, Audio) \<in> set (requests s)))
    \<and> (\<forall>e s1. enabled e s \<and> dispatch e s = Inr s1 \<longrightarrow>
          (\<exists>new. requests s1 = requests s @ new
             \<and> (\<forall>j<length (pages s).
                   (imageError (storyPages s ! j) \<longrightarrow>
                      imageError (storyPages s1 ! j) \<and> (j, Image) \<notin> set new)
                 \<and> (audioError (storyPages s ! j) \<longrightarrow>
                      audioError (storyPages s1 ! j) \<and> (j, Audio) \<notin> set new))))"
proof -
  have inv: "prefetch_inv s" using reachable_inv[OF assms] by simp
  have len: "length (storyPages s) = length (pages s)"
    using inv by (simp add: prefetch_inv_def arrays_aligned_def)
  have d: "distinct (requests s)"
    using inv sorted_precedes_distinct by (simp add: prefetch_inv_def)
  have step: "\<exists>new. requests s1 = requests s @ new
             \<and> (\<forall>j<length (pages s).
                   (imageError (storyPages s ! j) \<longrightarrow>
                      imageError (storyPages s1 ! j) \<and> (j, Image) \<notin> set new)
                 \<and> (audioError (storyPages s ! j) \<longrightarrow>
                      audioError (storyPages s1 ! j) \<and> (j, Audio) \<notin> set new))"
    if en: "enabled e s" and di: "dispatch e s = Inr s1" for e s1
  proof -
    have adv: "pipeline_advanced s s1" using dispatch_advanced[OF di] .
    then obtain new where new: "requests s1 = requests s @ new"
      using pipeline_advanced_requests by blast
    have "reachable s1" using reachable.step[OF assms en di] .
    then have "prefetch_inv s1" using reachable_inv by simp
    then have "sorted_wrt precedes (requests s @ new)"
      using new by (simp add: prefetch_inv_def)
    then have "distinct (requests s @ new)"
      by (rule sorted_precedes_distinct)
    then have disj: "\<And>x. x \<in> set (requests s) \<Longrightarrow> x \<notin> set new" by auto
    have "(imageError (storyPages s ! j) \<longrightarrow>
                      imageError (storyPages s1 ! j) \<and> (j, Image) \<notin> set new)
                 \<and> (audioError (storyPages s ! j) \<longrightarrow>
                      audioError (storyPages s1 ! j) \<and> (j, Audio) \<notin> set new)"
      if "j < length (pages s)" for j
      using that adv len error_was_requested[OF inv that] disj
      by (auto simp: pipeline_advanced_def)
    then show ?thesis using new by blast
  qed
  show ?thesis
    using d error_was_requested[OF inv] step by blast
qed

theorem errors_sticky_one_attempt_witness:
  "\<exists>s s1. story_run False two_pages [ImageSettled Rejected] = Some s
     \<and> reachable s \<and> imageError (storyPages s ! 0) \<and> length (pages s) = 2
     \<and> requests s = [(0, Image), (0, Audio)]
     \<and> enabled (AudioSettled Rejected) s
     \<and> dispatch (AudioSettled Rejected) s = Inr s1
     \<and> requests s1 = [(0, Image), (0, Audio), (1, Image)]
     \<and> imageError (storyPages s1 ! 0) \<and> audioError (storyPages s1 ! 0)"
proof -
  have "case story_run False two_pages [ImageSettled Rejected] of None \<Rightarrow> False
        | Some s \<Rightarrow> imageError (storyPages s ! 0) \<and> length (pages s) = 2
            \<and> requests s = [(0, Image), (0, Audio)]
            \<and> enabled (AudioSettled Rejected) s
            \<and> (case dispatch (AudioSettled Rejected) s of Inl x \<Rightarrow> False
                | Inr s1 \<Rightarrow> requests s1 = [(0, Image), (0, Audio), (1, Image)]
                    \<and> audioError (storyPages s1 ! 0))"
    by code_simp
  then obtain s s1 where s: "story_run False two_pages [ImageSettled Rejected] = Some s"
    "imageError (storyPages s ! 0)" "length (pages s) = 2"
    "requests s = [(0, Image), (0, Audio)]" "enabled (AudioSettled Rejected) s"
    "dispatch (AudioSettled Rejected) s = Inr s1"
    "requests s1 = [(0, Image), (0, Audio), (1, Image)]" "audioError (storyPages s1 ! 0)"
    by (auto split: option.splits sum.splits)
  have r: "reachable s" using story_run_reachable[OF s(1)] .
  have "\<forall>e s1. enabled e s \<and> dispatch e s = Inr s1 \<longrightarrow>
          (\<exists>new. requests s1 = requests s @ new
             \<and> (\<forall>j<length (pages s).
                   (imageError (storyPages s ! j) \<longrightarrow>
                      imageError (storyPages s1 ! j) \<and> (j, Image) \<notin> set new)
                 \<and> (audioError (storyPages s ! j) \<longrightarrow>
                      audioError (storyPages s1 ! j) \<and> (j, Audio) \<notin> set new)))"
    using errors_sticky_one_attempt[OF r] by blast
  then have "\<forall>j<length (pages s). imageError (storyPages s ! j) \<longrightarrow> imageError (storyPages s1 ! j)"
    using s(5,6) by blast
  then have "imageError (storyPages s1 ! 0)"
    using s(2,3) by simp
  then show ?thesis using s r by auto
qed


text \<open>C1, as the code has it. The fetches are issued one at a time, in story order and for
  each page the image before the audio. While the pipeline waits for the image of page
  \<open>i\<close>, that request is the last one issued: the audio of page \<open>i\<close> has not been requested
  and its loading flag is false. While it waits for either fetch of page \<open>i\<close>, no fetch of
  a later page has been requested and the flags and assets of every later page are as they
  were at the start. The three buttons are handled while a fetch is pending, and they
  leave the pipeline, the requests and the pages as they are. Any one event adds at most
  one request.\<close>

theorem prefetch_one_at_a_time:
  assumes "reachable s"
  shows "sorted_wrt precedes (requests s)
    \<and> (\<forall>i. pc s = AwaitImage i \<longrightarrow>
          i < length (pages s) \<and> last (requests s) = (i, Image)
          \<and> (i, Audio) \<notin> set (requests s) \<and> \<not> isAudioLoading (storyPages s ! i)
          \<and> audioBuffer (storyPages s ! i) = None)
    \<and> (\<forall>i. pc s = AwaitAudio i \<longrightarrow> i < length (pages s) \<and> last (requests s) = (i, Audio))
    \<and> (\<forall>i j. (pc s = AwaitImage i \<or> pc s = AwaitAudio i) \<and> i < j \<and> j < length (pages s) \<longrightarrow>
          (j, Image) \<notin> set (requests s) \<and> (j, Audio) \<notin> set (requests s)
          \<and> \<not> isImageLoading (storyPages s ! j) \<and> \<not> isAudioLoading (storyPages s ! j)
          \<and> imageUrl (storyPages s ! j) = imageUrl (pages s ! j)
          \<and> audioBuffer (storyPages s ! j) = None)
    \<and> (\<forall>e. e = NextPage \<or> e = PrevPage \<or> e = PlayPauseToggle \<longrightarrow>
          (\<exists>s1. dispatch e s = Inr s1 \<and> pc s1 = pc s \<and> requests s1 = requests s
             \<and> storyPages s1 = storyPages s))
    \<and> (\<forall>e s1. dispatch e s = Inr s1 \<longrightarrow>
          requests s1 = requests s \<or> (\<exists>x. requests s1 = requests s @ [x]))"
proof -
  have inv: "prefetch_inv s" using reachable_inv[OF assms] by simp
  have so: "sorted_wrt precedes (requests s)" and un: "unrequested_untouched s"
    and wa: "waits_for_last_request s"
    using inv by (simp_all add: prefetch_inv_def)
  have img: "i < length (pages s) \<and> last (requests s) = (i, Image)
          \<and> (i, Audio) \<notin> set (requests s) \<and> \<not> isAudioLoading (storyPages s ! i)
          \<and> audioBuffer (storyPages s ! i) = None" if "pc s = AwaitImage i" for i
  proof -
    have w: "i < length (pages s)" "requests s \<noteq> []" "last (requests s) = (i, Image)"
      using wa that by (simp_all add: waits_for_last_request_def)
    have "(i, Audio) \<notin> set (requests s)"
      using pending_is_last[OF inv w(2,3), of "(i, Audio)"] by auto
    then show ?thesis using w un by (simp add: unrequested_untouched_def)
  qed
  have aud: "i < length (pages s) \<and> last (requests s) = (i, Audio)" if "pc s = AwaitAudio i" for i
    using wa that by (simp add: waits_for_last_request_def)
  have later: "(j, Image) \<notin> set (requests s) \<and> (j, Audio) \<notin> set (requests s)
          \<and> \<not> isImageLoading (storyPages s ! j) \<and> \<not> isAudioLoading (storyPages s ! j)
          \<and> imageUrl (storyPages s ! j) = imageUrl (pages s ! j)
          \<and> audioBuffer (storyPages s ! j) = None"
    if p: "pc s = AwaitImage i \<or> pc s = AwaitAudio i" and ij: "i < j" "j < length (pages s)" for i j
  proof -
    obtain k where w: "requests s \<noteq> []" "last (requests s) = (i, k)"
      using wa p by (auto simp: waits_for_last_request_def)
    have "(j, Image) \<notin> set (requests s)" "(j, Audio) \<notin> set (requests s)"
      using pending_is_last[OF inv w, of "(j, Image)"] pending_is_last[OF inv w, of "(j, Audio)"] ij(1)
      by auto
    then show ?thesis using un ij(2) by (simp add: unrequested_untouched_def)
  qed
  have user: "\<exists>s1. dispatch e s = Inr s1 \<and> pc s1 = pc s \<and> requests s1 = requests s
             \<and> storyPages s1 = storyPages s"
    if "e = NextPage \<or> e = PrevPage \<or> e = PlayPauseToggle" for e
    using user_event_returns[OF assms that] by (auto simp: same_pipeline_def)
  show ?thesis
    using so img aud later user dispatch_requests by blast
qed

theorem prefetch_one_at_a_time_witness:
  "\<exists>s s1. story_run False two_pages [NextPage] = Some s
     \<and> reachable s \<and> pc s = AwaitImage 0 \<and> length (pages s) = 2 \<and> currentPageIndex s = 1
     \<and> requests s = [(0, Image)]
     \<and> (1, Image) \<notin> set (requests s) \<and> \<not> isImageLoading (storyPages s ! 1)
     \<and> \<not> isAudioLoading (storyPages s ! 0)
     \<and> dispatch PrevPage s = Inr s1 \<and> pc s1 = AwaitImage 0 \<and> requests s1 = [(0, Image)]"
proof -
  have "case story_run False two_pages [NextPage] of None \<Rightarrow> False
        | Some s \<Rightarrow> pc s = AwaitImage 0 \<and> length (pages s) = 2 \<and> currentPageIndex s = 1
            \<and> requests s = [(0, Image)]"
    by code_simp
  then obtain s where s: "story_run False two_pages [NextPage] = Some s" "pc s = AwaitImage 0"
    "length (pages s) = 2" "currentPageIndex s = 1" "requests s = [(0, Image)]"
    by (auto split: option.splits)
  have r: "reachable s" using story_run_reachable[OF s(1)] .
  note t = prefetch_one_at_a_time[OF r]
  note img = t[THEN conjunct2, THEN conjunct1, rule_format, of 0]
  note later = t[THEN conjunct2, THEN conjunct2, THEN conjunct2, THEN conjunct1, rule_format, of 0 1]
  note user = t[THEN conjunct2, THEN conjunct2, THEN conjunct2, THEN conjunct2, THEN conjunct1,
      rule_format, of PrevPage]
  have a: "\<not> isAudioLoading (storyPages s ! 0)"
    using img s(2) by simp
  have b: "(1, Image) \<notin> set (requests s) \<and> \<not> isImageLoading (storyPages s ! 1)"
    using later s(2,3) by simp
  obtain s1 where "dispatch PrevPage s = Inr s1 \<and> pc s1 = pc s \<and> requests s1 = requests s"
    using user by auto
  then show ?thesis using s r a b by auto
qed

text \<open>C1, as the specification states it, fails on the story of two pages. After the
  mount only the image of page 0 has been requested: neither the audio of page 0 nor
  anything of page 1, whose loading flags are false. It is still so after the user has
  turned to page 1, pressed the play button, gone back and turned to page 1 again, the
  fetch for page 0 being slow. When
  the image of page 0 settles, the audio of page 0 is requested, and only when that has
  settled too is the image of page 1 requested and its loading flag set.\<close>

theorem prefetch_blocks_counterexample:
  "map_option requests (story_run False two_pages []) = Some [(0, Image)]
   \<and> map_option pc (story_run False two_pages []) = Some (AwaitImage 0)
   \<and> map_option loading_flags (story_run False two_pages []) = Some [(True, False), (False, False)]
   \<and> map_option currentPageIndex
         (story_run False two_pages [NextPage, PlayPauseToggle, PrevPage, NextPage]) = Some 1
   \<and> map_option requests
         (story_run False two_pages [NextPage, PlayPauseToggle, PrevPage, NextPage]) = Some [(0, Image)]
   \<and> map_option loading_flags
         (story_run False two_pages [NextPage, PlayPauseToggle, PrevPage, NextPage])
       = Some [(True, False), (False, False)]
   \<and> map_option requests (story_run False two_pages [ImageSettled (Fulfilled ''u0'')])
       = Some [(0, Image), (0, Audio)]
   \<and> map_option loading_flags (story_run False two_pages [ImageSettled (Fulfilled ''u0'')])
       = Some [(False, True), (False, False)]
   \<and> map_option requests
         (story_run False two_pages
            [ImageSettled (Fulfilled ''u0''), AudioSettled (Fulfilled (''d0'', AudioBuffer 0))])
       = Some [(0, Image), (0, Audio), (1, Image)]
   \<and> map_option loading_flags
         (story_run False two_pages
            [ImageSettled (Fulfilled ''u0''), AudioSettled (Fulfilled (''d0'', AudioBuffer 0))])
       = Some [(False, False), (True, False)]"
  by code_simp

text \<open>C3. From every reachable state: (1) when autoplay is armed and the pipeline waits
  for the audio of the displayed page, the arrival of that audio makes the effect play
  once: exactly one context and one source are created, the source is the only live one
  and plays the buffer that arrived, and the intent is cleared; (2) when the next page
  already has its audio, \<open>NextPage\<close> arms autoplay and the effect plays that page once and
  clears the intent. In both cases nothing that arrives afterwards plays again: a further
  completion leaves the audio objects as they are, and so does any other change of the
  page array (a second completion for the same page included). (3) In general, while
  autoplay is not armed no completion of a fetch creates or changes a session.\<close>

theorem autoplay_fires_once:
  assumes "reachable s"
  shows "(shouldAutoplay s \<and> pc s = AwaitAudio (currentPageIndex s) \<longrightarrow>
      (\<exists>s1. dispatch (AudioSettled (Fulfilled (d, b))) s = Inr s1
         \<and> n_sources (audio s1) = Suc (n_sources (audio s))
         \<and> n_contexts (audio s1) = Suc (n_contexts (audio s))
         \<and> live_sessions (audio s1) = [n_sources (audio s)]
         \<and> buffer (sources (audio s1) (n_sources (audio s))) = Some b
         \<and> playbackStatus s1 = playing \<and> \<not> shouldAutoplay s1
         \<and> (\<forall>q. \<exists>s2. dispatch (AudioSettled q) s1 = Inr s2 \<and> audio s2 = audio s1
                \<and> \<not> shouldAutoplay s2)
         \<and> (\<forall>ps. length ps = length (storyPages s1) \<longrightarrow>
                commit s1 (s1\<lparr> storyPages := ps \<rparr>) = Inr (s1\<lparr> storyPages := ps \<rparr>))))
   \<and> (currentPageIndex s + 1 < length (storyPages s)
        \<and> audioBuffer (storyPages s ! (currentPageIndex s + 1)) = Some b \<longrightarrow>
      (\<exists>s1. dispatch NextPage s = Inr s1
         \<and> currentPageIndex s1 = currentPageIndex s + 1
         \<and> n_sources (audio s1) = Suc (n_sources (audio s))
         \<and> n_contexts (audio s1) = Suc (n_contexts (audio s))
         \<and> live_sessions (audio s1) = [n_sources (audio s)]
         \<and> buffer (sources (audio s1) (n_sources (audio s))) = Some b
         \<and> playbackStatus s1 = playing \<and> \<not> shouldAutoplay s1
         \<and> (\<forall>q. \<exists>s2. dispatch (AudioSettled q) s1 = Inr s2 \<and> audio s2 = audio s1
                \<and> \<not> shouldAutoplay s2)
         \<and> (\<forall>ps. length ps = length (storyPages s1) \<longrightarrow>
                commit s1 (s1\<lparr> storyPages := ps \<rparr>) = Inr (s1\<lparr> storyPages := ps \<rparr>))))
   \<and> (\<not> shouldAutoplay s \<longrightarrow>
        (\<forall>q. \<exists>s2. dispatch (AudioSettled q) s = Inr s2 \<and> audio s2 = audio s
            \<and> playbackStatus s2 = playbackStatus s \<and> \<not> shouldAutoplay s2)
      \<and> (\<forall>q. \<exists>s2. dispatch (ImageSettled q) s = Inr s2 \<and> audio s2 = audio s
            \<and> playbackStatus s2 = playbackStatus s \<and> \<not> shouldAutoplay s2))"
proof -
  have one: "\<exists>s1. dispatch (AudioSettled (Fulfilled (d, b))) s = Inr s1
         \<and> n_sources (audio s1) = Suc (n_sources (audio s))
         \<and> n_contexts (audio s1) = Suc (n_contexts (audio s))
         \<and> live_sessions (audio s1) = [n_sources (audio s)]
         \<and> buffer (sources (audio s1) (n_sources (audio s))) = Some b
         \<and> playbackStatus s1 = playing \<and> \<not> shouldAutoplay s1
         \<and> (\<forall>q. \<exists>s2. dispatch (AudioSettled q) s1 = Inr s2 \<and> audio s2 = audio s1
                \<and> \<not> shouldAutoplay s2)
         \<and> (\<forall>ps. length ps = length (storyPages s1) \<longrightarrow>
                commit s1 (s1\<lparr> storyPages := ps \<rparr>) = Inr (s1\<lparr> storyPages := ps \<rparr>))"
    if h: "shouldAutoplay s" "pc s = AwaitAudio (currentPageIndex s)"
  proof -
    from armed_audio_arrives[OF assms h, of d b] obtain s1 where
      s1: "dispatch (AudioSettled (Fulfilled (d, b))) s = Inr s1"
        "n_sources (audio s1) = Suc (n_sources (audio s))"
        "n_contexts (audio s1) = Suc (n_contexts (audio s))"
        "live_sessions (audio s1) = [n_sources (audio s)]"
        "buffer (sources (audio s1) (n_sources (audio s))) = Some b"
        "playbackStatus s1 = playing" "\<not> shouldAutoplay s1"
      by blast
    have "enabled (AudioSettled (Fulfilled (d, b))) s" using h(2) by simp
    then have "reachable s1" using reachable.step[OF assms _ s1(1)] by simp
    from consumed_stays[OF this s1(7)] show ?thesis using s1 by blast
  qed
  have two: "\<exists>s1. dispatch NextPage s = Inr s1
         \<and> currentPageIndex s1 = currentPageIndex s + 1
         \<and> n_sources (audio s1) = Suc (n_sources (audio s))
         \<and> n_contexts (audio s1) = Suc (n_contexts (audio s))
         \<and> live_sessions (audio s1) = [n_sources (audio s)]
         \<and> buffer (sources (audio s1) (n_sources (audio s))) = Some b
         \<and> playbackStatus s1 = playing \<and> \<not> shouldAutoplay s1
         \<and> (\<forall>q. \<exists>s2. dispatch (AudioSettled q) s1 = Inr s2 \<and> audio s2 = audio s1
                \<and> \<not> shouldAutoplay s2)
         \<and> (\<forall>ps. length ps = length (storyPages s1) \<longrightarrow>
                commit s1 (s1\<lparr> storyPages := ps \<rparr>) = Inr (s1\<lparr> storyPages := ps \<rparr>))"
    if h: "currentPageIndex s + 1 < length (storyPages s)"
      "audioBuffer (storyPages s ! (currentPageIndex s + 1)) = Some b"
  proof -
    from next_reveals_ready_page[OF assms h] obtain s1 where
      s1: "dispatch NextPage s = Inr s1"
        "n_sources (audio s1) = Suc (n_sources (audio s))"
        "n_contexts (audio s1) = Suc (n_contexts (audio s))"
        "live_sessions (audio s1) = [n_sources (audio s)]"
        "buffer (sources (audio s1) (n_sources (audio s))) = Some b"
        "playbackStatus s1 = playing" "\<not> shouldAutoplay s1"
        "currentPageIndex s1 = currentPageIndex s + 1"
      by blast
    have "reachable s1" using reachable.step[OF assms _ s1(1)] by simp
    from consumed_stays[OF this s1(7)] show ?thesis using s1 by blast
  qed
  have three: "(\<forall>q. \<exists>s2. dispatch (AudioSettled q) s = Inr s2 \<and> audio s2 = audio s
            \<and> playbackStatus s2 = playbackStatus s \<and> \<not> shouldAutoplay s2)
      \<and> (\<forall>q. \<exists>s2. dispatch (ImageSettled q) s = Inr s2 \<and> audio s2 = audio s
            \<and> playbackStatus s2 = playbackStatus s \<and> \<not> shouldAutoplay s2)"
    if "\<not> shouldAutoplay s"
    using consumed_stays[OF assms that] by blast
  show ?thesis
    using one two three by blast
qed


theorem autoplay_fires_once_witness:
  "\<exists>s s1 s2 t t1.
     story_run False two_pages
        [NextPage, ImageSettled (Fulfilled ''u0''), AudioSettled (Fulfilled (''d0'', AudioBuffer 0)),
         ImageSettled (Fulfilled ''u1'')] = Some s
     \<and> reachable s \<and> shouldAutoplay s \<and> currentPageIndex s = 1 \<and> pc s = AwaitAudio 1
     \<and> n_sources (audio s) = 0 \<and> playbackStatus s = stopped
     \<and> dispatch (AudioSettled (Fulfilled (''d1'', AudioBuffer 1))) s = Inr s1
     \<and> n_sources (audio s1) = 1 \<and> live_sessions (audio s1) = [0]
     \<and> buffer (sources (audio s1) 0) = Some (AudioBuffer 1)
     \<and> playbackStatus s1 = playing \<and> \<not> shouldAutoplay s1
     \<and> dispatch (AudioSettled (Fulfilled (''d1'', AudioBuffer 1))) s1 = Inr s2
     \<and> audio s2 = audio s1 \<and> \<not> shouldAutoplay s2
     \<and> story_run False two_pages
        [ImageSettled (Fulfilled ''u0''), AudioSettled (Fulfilled (''d0'', AudioBuffer 0)),
         ImageSettled (Fulfilled ''u1''), AudioSettled (Fulfilled (''d1'', AudioBuffer 1))] = Some t
     \<and> reachable t \<and> currentPageIndex t = 0 \<and> length (storyPages t) = 2
     \<and> audioBuffer (storyPages t ! 1) = Some (AudioBuffer 1) \<and> n_sources (audio t) = 0
     \<and> dispatch NextPage t = Inr t1
     \<and> currentPageIndex t1 = 1 \<and> n_sources (audio t1) = 1 \<and> live_sessions (audio t1) = [0]
     \<and> playbackStatus t1 = playing \<and> \<not> shouldAutoplay t1"
proof -
  let ?es = "[NextPage, ImageSettled (Fulfilled ''u0''), AudioSettled (Fulfilled (''d0'', AudioBuffer 0)),
         ImageSettled (Fulfilled ''u1'')]"
  let ?et = "[ImageSettled (Fulfilled ''u0''), AudioSettled (Fulfilled (''d0'', AudioBuffer 0)),
         ImageSettled (Fulfilled ''u1''), AudioSettled (Fulfilled (''d1'', AudioBuffer 1))]"
  have "case story_run False two_pages ?es of None \<Rightarrow> False
        | Some s \<Rightarrow> shouldAutoplay s \<and> currentPageIndex s = 1 \<and> pc s = AwaitAudio 1
            \<and> n_sources (audio s) = 0 \<and> playbackStatus s = stopped"
    by code_simp
  then obtain s where s: "story_run False two_pages ?es = Some s" "shouldAutoplay s"
    "currentPageIndex s = 1" "pc s = AwaitAudio 1" "n_sources (audio s) = 0"
    "playbackStatus s = stopped"
    by (auto split: option.splits)
  have "case story_run False two_pages ?et of None \<Rightarrow> False
        | Some t \<Rightarrow> currentPageIndex t = 0 \<and> length (storyPages t) = 2
            \<and> audioBuffer (storyPages t ! 1) = Some (AudioBuffer 1) \<and> n_sources (audio t) = 0"
    by code_simp
  then obtain t where t: "story_run False two_pages ?et = Some t" "currentPageIndex t = 0"
    "length (storyPages t) = 2" "audioBuffer (storyPages t ! 1) = Some (AudioBuffer 1)"
    "n_sources (audio t) = 0"
    by (auto split: option.splits)
  have r: "reachable s" "reachable t"
    using story_run_reachable[OF s(1)] story_run_reachable[OF t(1)] by simp_all
  note one = autoplay_fires_once[OF r(1), of "''d1''" "AudioBuffer 1", THEN conjunct1, rule_format]
  note two = autoplay_fires_once[OF r(2), of "''d1''" "AudioBuffer 1", THEN conjunct2, THEN conjunct1,
      rule_format]
  have "shouldAutoplay s \<and> pc s = AwaitAudio (currentPageIndex s)" using s by simp
  from one[OF this] obtain s1 where
    s1: "dispatch (AudioSettled (Fulfilled (''d1'', AudioBuffer 1))) s = Inr s1"
      "n_sources (audio s1) = Suc (n_sources (audio s))"
      "live_sessions (audio s1) = [n_sources (audio s)]"
      "buffer (sources (audio s1) (n_sources (audio s))) = Some (AudioBuffer 1)"
      "playbackStatus s1 = playing" "\<not> shouldAutoplay s1"
      "\<forall>q. \<exists>s2. dispatch (AudioSettled q) s1 = Inr s2 \<and> audio s2 = audio s1 \<and> \<not> shouldAutoplay s2"
    by blast
  from s1(7) obtain s2 where
    s2: "dispatch (AudioSettled (Fulfilled (''d1'', AudioBuffer 1))) s1 = Inr s2"
      "audio s2 = audio s1" "\<not> shouldAutoplay s2"
    by blast
  have "currentPageIndex t + 1 < length (storyPages t)
        \<and> audioBuffer (storyPages t ! (currentPageIndex t + 1)) = Some (AudioBuffer 1)"
    using t by simp
  from two[OF this] obtain t1 where
    t1: "dispatch NextPage t = Inr t1" "currentPageIndex t1 = currentPageIndex t + 1"
      "n_sources (audio t1) = Suc (n_sources (audio t))"
      "live_sessions (audio t1) = [n_sources (audio t)]"
      "playbackStatus t1 = playing" "\<not> shouldAutoplay t1"
    by blast
  show ?thesis
    using s t r s1(1-6) s2 t1 by simp
qed


end
